theory Spec2Isabelle
  imports Complex_Main
begin

section \<open>Data model (types.ts, constants.ts, services/solver)\<close>

text \<open>
  Coordinates and sizes are JavaScript numbers that hold integers (types.ts documents
  \<open>x\<close> as 0-3 and \<open>y\<close> as 0-4); they are modelled as \<open>int\<close>. An array index is a \<open>nat\<close>.
\<close>

datatype BlockType = KING | VERTICAL | HORIZONTAL | PAWN

datatype Direction = UP | DOWN | LEFT | RIGHT

record Block =
  b_id :: string
  b_type :: BlockType
  b_x :: int
  b_y :: int
  b_width :: int
  b_height :: int
  b_label :: "string option"

record SolverBlock =
  s_type :: BlockType
  s_x :: int
  s_y :: int
  s_width :: int
  s_height :: int

record SimplifiedMove =
  blockIndex :: nat
  direction :: Direction

record SolverState =
  blocks :: "SolverBlock list"
  path :: "SimplifiedMove list"

text \<open>Reading a field of \<open>undefined\<close> raises a TypeError in JavaScript.\<close>

datatype error = TypeError

definition GRID_WIDTH :: int where
  "GRID_WIDTH = 4"

definition GRID_HEIGHT :: int where
  "GRID_HEIGHT = 5"

definition MAX_ITERATIONS :: int where
  "MAX_ITERATIONS = 50000"

section \<open>encodeState\<close>

text \<open>
  The grid is an \<open>Int8Array\<close> of \<open>GRID_WIDTH * GRID_HEIGHT\<close> cells. A write to a typed
  array at an index outside the array is ignored; \<open>setCell\<close> writes that out.
\<close>

definition typeCode :: "BlockType \<Rightarrow> nat" where
  "typeCode t =
     (if t = KING then 1
      else if t = VERTICAL then 2
      else if t = HORIZONTAL then 3
      else if t = PAWN then 4
      else 0)"

definition setCell :: "nat list \<Rightarrow> int \<Rightarrow> nat \<Rightarrow> nat list" where
  "setCell grid idx code =
     (if 0 \<le> idx \<and> idx < int (length grid) then grid[nat idx := code] else grid)"

definition paintRow :: "SolverBlock \<Rightarrow> nat \<Rightarrow> int \<Rightarrow> nat list \<Rightarrow> nat list" where
  "paintRow b code dy grid =
     fold (\<lambda>dx g. setCell g ((s_y b + dy) * GRID_WIDTH + (s_x b + dx)) code)
       [0 .. s_width b - 1] grid"

definition paintBlock :: "SolverBlock \<Rightarrow> nat list \<Rightarrow> nat list" where
  "paintBlock b grid =
     fold (paintRow b (typeCode (s_type b))) [0 .. s_height b - 1] grid"

definition emptyGrid :: "nat list" where
  "emptyGrid = replicate (nat (GRID_WIDTH * GRID_HEIGHT)) 0"

definition paintAll :: "SolverBlock list \<Rightarrow> nat list" where
  "paintAll bs = fold paintBlock bs emptyGrid"

text \<open>\<open>grid.join('')\<close>: every cell holds a code from 0 to 4, printed as one digit.\<close>

definition digit :: "nat \<Rightarrow> char" where
  "digit c = char_of (48 + c)"

definition encodeState :: "SolverBlock list \<Rightarrow> string" where
  "encodeState bs = map digit (paintAll bs)"

section \<open>isSolved\<close>

definition isSolved :: "SolverBlock list \<Rightarrow> bool" where
  "isSolved bs =
     (case find (\<lambda>b. s_type b = KING) bs of
        Some k \<Rightarrow> s_x k = 1 \<and> s_y k = 3
      | None \<Rightarrow> False)"

section \<open>canMove\<close>

text \<open>
  The collision loop of \<open>canMove\<close>, over the indices still to visit: it answers \<open>False\<close> at
  the first other block that the translated rectangle meets, \<open>True\<close> when none is left.
\<close>

fun collisionFree ::
  "nat \<Rightarrow> int \<Rightarrow> int \<Rightarrow> SolverBlock \<Rightarrow> SolverBlock list \<Rightarrow> nat list \<Rightarrow> bool" where
  "collisionFree m nx ny b allBlocks [] = True"
| "collisionFree m nx ny b allBlocks (i # rest) =
     (if i = m then collisionFree m nx ny b allBlocks rest
      else
        let other = allBlocks ! i in
        if nx < s_x other + s_width other \<and>
           nx + s_width b > s_x other \<and>
           ny < s_y other + s_height other \<and>
           ny + s_height b > s_y other
        then False
        else collisionFree m nx ny b allBlocks rest)"

definition canMove :: "nat \<Rightarrow> Direction \<Rightarrow> SolverBlock list \<Rightarrow> error + bool" where
  "canMove movingBlockIndex dir allBlocks =
     (if movingBlockIndex < length allBlocks then
        let b = allBlocks ! movingBlockIndex;
            nx = (if dir = LEFT then s_x b - 1 else if dir = RIGHT then s_x b + 1 else s_x b);
            ny = (if dir = UP then s_y b - 1 else if dir = DOWN then s_y b + 1 else s_y b)
        in
          if nx < 0 \<or> ny < 0 \<or> nx + s_width b > GRID_WIDTH \<or> ny + s_height b > GRID_HEIGHT
          then Inr False
          else Inr (collisionFree movingBlockIndex nx ny b allBlocks [0 ..< length allBlocks])
      else Inl TypeError)"

section \<open>findSolution\<close>

text \<open>Lines 113-119: the blocks are cloned and the clone of block \<open>i\<close> is moved by one cell.\<close>

definition applyMove :: "nat \<Rightarrow> Direction \<Rightarrow> SolverBlock list \<Rightarrow> SolverBlock list" where
  "applyMove i dir bs =
     (let newBlocks = map (\<lambda>b. b) bs; nb = newBlocks ! i in
      newBlocks[i :=
        (if dir = UP then nb\<lparr>s_y := s_y nb - 1\<rparr>
         else if dir = DOWN then nb\<lparr>s_y := s_y nb + 1\<rparr>
         else if dir = LEFT then nb\<lparr>s_x := s_x nb - 1\<rparr>
         else nb\<lparr>s_x := s_x nb + 1\<rparr>)])"

definition dirs :: "Direction list" where
  "dirs = [UP, DOWN, LEFT, RIGHT]"

text \<open>
  The two nested \<open>for\<close> loops visit the pairs \<open>(i, dir)\<close> in the order of
  \<open>List.product\<close>: every direction of block 0, then every direction of block 1, ...
\<close>

definition candidates :: "SolverState \<Rightarrow> (nat \<times> Direction) list" where
  "candidates current = List.product [0 ..< length (blocks current)] dirs"

text \<open>
  \<open>maxDepth\<close> is a JavaScript number: a finite value (every double is a real), an
  infinity or NaN. The code uses it in one place, \<open>newPath.length < maxDepth\<close>, where a
  comparison with NaN is false.
\<close>

datatype number = Finite real | PosInfinity | NegInfinity | NaN

fun lengthBelow :: "nat \<Rightarrow> number \<Rightarrow> bool" where
  "lengthBelow n (Finite r) = (real n < r)"
| "lengthBelow n PosInfinity = True"
| "lengthBelow n NegInfinity = False"
| "lengthBelow n NaN = False"

text \<open>
  One expansion either returns from \<open>findSolution\<close> with the goal state, or falls out of
  the loops with the queue and the visited set it has built, or raises.
\<close>

datatype expansion =
    Return SolverState "SolverState list" "string set"
  | Continue "SolverState list" "string set"
  | Throw error

fun expand ::
  "number \<Rightarrow> SolverState \<Rightarrow> (nat \<times> Direction) list \<Rightarrow> SolverState list \<Rightarrow> string set
     \<Rightarrow> expansion" where
  "expand maxDepth current [] queue visited = Continue queue visited"
| "expand maxDepth current ((i, dir) # rest) queue visited =
     (case canMove i dir (blocks current) of
        Inl e \<Rightarrow> Throw e
      | Inr False \<Rightarrow> expand maxDepth current rest queue visited
      | Inr True \<Rightarrow>
          let newBlocks = applyMove i dir (blocks current);
              hash = encodeState newBlocks
          in
            if hash \<notin> visited then
              let newPath = path current @ [\<lparr>blockIndex = i, direction = dir\<rparr>] in
              if isSolved newBlocks
              then Return \<lparr>blocks = newBlocks, path = newPath\<rparr> queue visited
              else if lengthBelow (length newPath) maxDepth
              then expand maxDepth current rest
                     (queue @ [\<lparr>blocks = newBlocks, path = newPath\<rparr>]) (insert hash visited)
              else expand maxDepth current rest queue visited
            else expand maxDepth current rest queue visited)"

text \<open>
  The outcome of a run, with the search state at the moment it stops: the queue (nothing is
  ever removed from it, \<open>head\<close> only moves), the visited set, and \<open>head\<close>, the number of
  nodes dequeued.
\<close>

datatype outcome = Solved SolverState | NoSolution | Raised error

record Search =
  outcome :: outcome
  queue :: "SolverState list"
  visited :: "string set"
  head :: nat

function bfs :: "number \<Rightarrow> SolverState list \<Rightarrow> string set \<Rightarrow> nat \<Rightarrow> Search" where
  "bfs maxDepth q v h =
     (if h < length q then
        if int h > MAX_ITERATIONS
        then \<lparr>outcome = NoSolution, queue = q, visited = v, head = h\<rparr>
        else
          let current = q ! h in
          case expand maxDepth current (candidates current) q v of
            Return goal q' v' \<Rightarrow> \<lparr>outcome = Solved goal, queue = q', visited = v', head = h + 1\<rparr>
          | Throw e \<Rightarrow> \<lparr>outcome = Raised e, queue = q, visited = v, head = h + 1\<rparr>
          | Continue q' v' \<Rightarrow> bfs maxDepth q' v' (h + 1)
      else \<lparr>outcome = NoSolution, queue = q, visited = v, head = h\<rparr>)"
  by pat_completeness auto
termination
  by (relation "measure (\<lambda>(maxDepth, q, v, h). nat MAX_ITERATIONS + 1 - h)") auto

definition toSolverBlock :: "Block \<Rightarrow> SolverBlock" where
  "toSolverBlock b =
     \<lparr>s_type = b_type b, s_x = b_x b, s_y = b_y b, s_width = b_width b, s_height = b_height b\<rparr>"

definition DEFAULT_MAX_DEPTH :: number where
  "DEFAULT_MAX_DEPTH = Finite 200"

text \<open>
  The whole run of \<open>findSolution\<close>. The optional parameter \<open>maxDepth\<close> is \<open>None\<close> when the
  caller leaves it out.
\<close>

definition maxDepthOf :: "number option \<Rightarrow> number" where
  "maxDepthOf maxDepthArg = (case maxDepthArg of None \<Rightarrow> DEFAULT_MAX_DEPTH | Some d \<Rightarrow> d)"

definition search :: "Block list \<Rightarrow> number option \<Rightarrow> Search" where
  "search initialBlocks maxDepthArg =
     (let maxDepth = maxDepthOf maxDepthArg;
          startBlocks = map toSolverBlock initialBlocks;
          startHash = encodeState startBlocks
      in
        if isSolved startBlocks
        then \<lparr>outcome = Solved \<lparr>blocks = startBlocks, path = []\<rparr>, queue = [], visited = {},
              head = 0\<rparr>
        else bfs maxDepth [\<lparr>blocks = startBlocks, path = []\<rparr>] {startHash} 0)"

text \<open>What \<open>findSolution\<close> gives back: \<open>Inr None\<close> is \<open>null\<close>, \<open>Inr (Some ms)\<close> a move list.\<close>

definition findSolution :: "Block list \<Rightarrow> number option \<Rightarrow> error + SimplifiedMove list option" where
  "findSolution initialBlocks maxDepthArg =
     (case outcome (search initialBlocks maxDepthArg) of
        Solved goal \<Rightarrow> Inr (Some (path goal))
      | NoSolution \<Rightarrow> Inr None
      | Raised e \<Rightarrow> Inl e)"

section \<open>The words of the specification\<close>

text \<open>
  Section 4.1 of the specification: two rectangles overlap when
  \<open>A.x < B.x+B.width AND A.x+A.width > B.x AND A.y < B.y+B.height AND A.y+A.height > B.y\<close>.
\<close>

definition overlap :: "SolverBlock \<Rightarrow> SolverBlock \<Rightarrow> bool" where
  "overlap A B \<longleftrightarrow>
     s_x A < s_x B + s_width B \<and> s_x A + s_width A > s_x B \<and>
     s_y A < s_y B + s_height B \<and> s_y A + s_height A > s_y B"

text \<open>
  Section 3: a rectangle is inside the grid when \<open>0 \<le> x\<close>, \<open>x + width \<le> GRID_WIDTH\<close>, and
  the same for \<open>y\<close>.
\<close>

definition inGrid :: "SolverBlock \<Rightarrow> bool" where
  "inGrid b \<longleftrightarrow>
     0 \<le> s_x b \<and> s_x b + s_width b \<le> GRID_WIDTH \<and>
     0 \<le> s_y b \<and> s_y b + s_height b \<le> GRID_HEIGHT"

text \<open>The rectangle moved by exactly one cell.\<close>

fun translate :: "Direction \<Rightarrow> SolverBlock \<Rightarrow> SolverBlock" where
  "translate UP b = b\<lparr>s_y := s_y b - 1\<rparr>"
| "translate DOWN b = b\<lparr>s_y := s_y b + 1\<rparr>"
| "translate LEFT b = b\<lparr>s_x := s_x b - 1\<rparr>"
| "translate RIGHT b = b\<lparr>s_x := s_x b + 1\<rparr>"

text \<open>Section 4.2: a move is legal iff (a) bounds and (b) no overlap with another piece.\<close>

definition legal :: "nat \<Rightarrow> Direction \<Rightarrow> SolverBlock list \<Rightarrow> bool" where
  "legal i d bs \<longleftrightarrow>
     inGrid (translate d (bs ! i)) \<and>
     (\<forall>j \<in> {0 ..< length bs}. j \<noteq> i \<longrightarrow> \<not> overlap (translate d (bs ! i)) (bs ! j))"

text \<open>
  A valid board (sections 3 and 6): every piece inside the grid, no two pieces overlapping.
\<close>

definition allInGrid :: "SolverBlock list \<Rightarrow> bool" where
  "allInGrid bs \<longleftrightarrow> (\<forall>i \<in> {0 ..< length bs}. inGrid (bs ! i))"

definition noOverlap :: "SolverBlock list \<Rightarrow> bool" where
  "noOverlap bs \<longleftrightarrow>
     (\<forall>i \<in> {0 ..< length bs}. \<forall>j \<in> {0 ..< length bs}. i \<noteq> j \<longrightarrow> \<not> overlap (bs ! i) (bs ! j))"

definition validBoard :: "SolverBlock list \<Rightarrow> bool" where
  "validBoard bs \<longleftrightarrow> allInGrid bs \<and> noOverlap bs"

text \<open>
  Replaying a move list (section 6), in the words of the specification alone: each
  \<open>blockIndex\<close> is an index into the list, a move must be legal in the sense of section 4.2
  on the board reached so far, and it relocates that one piece by one cell; \<open>None\<close> as
  soon as a move is not legal.
\<close>

fun replay :: "SolverBlock list \<Rightarrow> SimplifiedMove list \<Rightarrow> SolverBlock list option" where
  "replay bs [] = Some bs"
| "replay bs (m # ms) =
     (if blockIndex m < length bs \<and> legal (blockIndex m) (direction m) bs
      then replay (bs[blockIndex m := translate (direction m) (bs ! blockIndex m)]) ms
      else None)"

text \<open>The King's top-left is at the goal cell (1, 3): the King is the first piece of that kind.\<close>

definition kingAtGoal :: "SolverBlock list \<Rightarrow> bool" where
  "kingAtGoal bs \<longleftrightarrow>
     (\<exists>k \<in> {0 ..< length bs}. s_type (bs ! k) = KING \<and> s_x (bs ! k) = 1 \<and> s_y (bs ! k) = 3 \<and>
        (\<forall>j \<in> {0 ..< k}. s_type (bs ! j) \<noteq> KING))"

text \<open>The canonical key of a search node, and the node that one move makes of another.\<close>

definition keyOf :: "SolverState \<Rightarrow> string" where
  "keyOf st = encodeState (blocks st)"

definition child :: "SolverState \<Rightarrow> nat \<Rightarrow> Direction \<Rightarrow> SolverState" where
  "child cur i d =
     \<lparr>blocks = applyMove i d (blocks cur),
      path = path cur @ [\<lparr>blockIndex = i, direction = d\<rparr>]\<rparr>"

text \<open>The root node of a run.\<close>

definition root :: "Block list \<Rightarrow> SolverState" where
  "root initialBlocks = \<lparr>blocks = map toSolverBlock initialBlocks, path = []\<rparr>"

text \<open>
  Occupancy by kind (section 3): the cell \<open>(cx, cy)\<close> is covered by a piece when it lies in
  the piece's rectangle; \<open>kindsAt\<close> collects the kinds of the pieces that cover the cell
  (at most one on a valid board, none when the cell is empty).
\<close>

definition covers :: "SolverBlock \<Rightarrow> int \<Rightarrow> int \<Rightarrow> bool" where
  "covers b cx cy \<longleftrightarrow>
     s_x b \<le> cx \<and> cx < s_x b + s_width b \<and> s_y b \<le> cy \<and> cy < s_y b + s_height b"

definition kindsAt :: "SolverBlock list \<Rightarrow> int \<Rightarrow> int \<Rightarrow> BlockType set" where
  "kindsAt bs cx cy = s_type ` {b \<in> set bs. covers b cx cy}"

definition sameOccupancy :: "SolverBlock list \<Rightarrow> SolverBlock list \<Rightarrow> bool" where
  "sameOccupancy A B \<longleftrightarrow>
     (\<forall>cx \<in> set [0 .. GRID_WIDTH - 1]. \<forall>cy \<in> set [0 .. GRID_HEIGHT - 1].
        kindsAt A cx cy = kindsAt B cx cy)"

text \<open>The board in which pieces \<open>i\<close> and \<open>j\<close> have exchanged their positions.\<close>

definition swapPositions :: "nat \<Rightarrow> nat \<Rightarrow> SolverBlock list \<Rightarrow> SolverBlock list" where
  "swapPositions i j bs =
     bs[i := (bs ! i)\<lparr>s_x := s_x (bs ! j), s_y := s_y (bs ! j)\<rparr>,
        j := (bs ! j)\<lparr>s_x := s_x (bs ! i), s_y := s_y (bs ! i)\<rparr>]"

text \<open>The cell of the grid array that a block paints, as the two loops of \<open>encodeState\<close> do.\<close>

definition painted :: "SolverBlock \<Rightarrow> nat \<Rightarrow> bool" where
  "painted b k \<longleftrightarrow>
     (\<exists>dy \<in> set [0 .. s_height b - 1]. \<exists>dx \<in> set [0 .. s_width b - 1].
        (s_y b + dy) * GRID_WIDTH + (s_x b + dx) = int k)"

section \<open>findSolution over an explicit store\<close>

text \<open>
  To speak about what \<open>findSolution\<close> does to the caller's data, the block objects and
  the arrays of blocks live in a store: an object is a bag of the properties a block can
  have (\<open>id\<close> and \<open>label\<close> are absent from the solver's own objects), an array is a list
  of references to objects, a reference is an index into the store, and allocation appends.
  JavaScript has no dangling reference, so a reference read from a live array is in range.
  The queue, the paths and the visited set are created by the solver itself and hold no
  reference to a block except, in each node, the reference to its array of blocks.
\<close>

record obj =
  o_id :: "string option"
  o_type :: BlockType
  o_x :: int
  o_y :: int
  o_width :: int
  o_height :: int
  o_label :: "string option"

record heap =
  objs :: "obj list"
  arrs :: "nat list list"

record HState =
  h_blocks :: nat
  h_path :: "SimplifiedMove list"

text \<open>What a reader of the five solver fields sees of an object and of an array of blocks.\<close>

definition solverView :: "obj \<Rightarrow> SolverBlock" where
  "solverView ob =
     \<lparr>s_type = o_type ob, s_x = o_x ob, s_y = o_y ob, s_width = o_width ob,
      s_height = o_height ob\<rparr>"

definition viewArr :: "heap \<Rightarrow> nat \<Rightarrow> SolverBlock list" where
  "viewArr h a = map (\<lambda>r. solverView (objs h ! r)) (arrs h ! a)"

definition allocObj :: "heap \<Rightarrow> obj \<Rightarrow> nat \<times> heap" where
  "allocObj h ob = (length (objs h), h\<lparr>objs := objs h @ [ob]\<rparr>)"

definition allocArr :: "heap \<Rightarrow> nat list \<Rightarrow> nat \<times> heap" where
  "allocArr h rs = (length (arrs h), h\<lparr>arrs := arrs h @ [rs]\<rparr>)"

text \<open>
  \<open>array.map(b => f(b))\<close> where \<open>f\<close> builds a new object from the one it reads: one new
  object per element, in order, then the new array of their references.
\<close>

fun mapObjs :: "(obj \<Rightarrow> obj) \<Rightarrow> heap \<Rightarrow> nat list \<Rightarrow> nat list \<times> heap" where
  "mapObjs f h [] = ([], h)"
| "mapObjs f h (r # rs) =
     (let (r', h1) = allocObj h (f (objs h ! r));
          (rs', h2) = mapObjs f h1 rs
      in (r' # rs', h2))"

definition mapArr :: "(obj \<Rightarrow> obj) \<Rightarrow> heap \<Rightarrow> nat \<Rightarrow> nat \<times> heap" where
  "mapArr f h a = (let (rs', h1) = mapObjs f h (arrs h ! a) in allocArr h1 rs')"

text \<open>Line 87: \<open>b => ({type: b.type, x: b.x, y: b.y, width: b.width, height: b.height})\<close>.\<close>

definition toSolverObj :: "obj \<Rightarrow> obj" where
  "toSolverObj b =
     \<lparr>o_id = None, o_type = o_type b, o_x = o_x b, o_y = o_y b, o_width = o_width b,
      o_height = o_height b, o_label = None\<rparr>"

text \<open>Line 113: \<open>b => ({...b})\<close> copies every property.\<close>

definition spread :: "obj \<Rightarrow> obj" where
  "spread b = b"

text \<open>Lines 116-119: the write \<open>newBlocks[i].y--\<close> (or \<open>y++\<close>, \<open>x--\<close>, \<open>x++\<close>).\<close>

definition writeMove :: "heap \<Rightarrow> nat \<Rightarrow> nat \<Rightarrow> Direction \<Rightarrow> heap" where
  "writeMove h newBlocks i dir =
     (let r = arrs h ! newBlocks ! i; ob = objs h ! r in
      h\<lparr>objs := (objs h)[r :=
        (if dir = UP then ob\<lparr>o_y := o_y ob - 1\<rparr>
         else if dir = DOWN then ob\<lparr>o_y := o_y ob + 1\<rparr>
         else if dir = LEFT then ob\<lparr>o_x := o_x ob - 1\<rparr>
         else ob\<lparr>o_x := o_x ob + 1\<rparr>)]\<rparr>)"

definition candidatesH :: "heap \<Rightarrow> HState \<Rightarrow> (nat \<times> Direction) list" where
  "candidatesH h current = List.product [0 ..< length (arrs h ! h_blocks current)] dirs"

datatype hexpansion =
    HReturn HState "HState list" "string set" heap
  | HContinue "HState list" "string set" heap
  | HThrow error

fun expandH ::
  "number \<Rightarrow> HState \<Rightarrow> (nat \<times> Direction) list \<Rightarrow> HState list \<Rightarrow> string set \<Rightarrow> heap
     \<Rightarrow> hexpansion" where
  "expandH maxDepth current [] q v h = HContinue q v h"
| "expandH maxDepth current ((i, dir) # rest) q v h =
     (case canMove i dir (viewArr h (h_blocks current)) of
        Inl e \<Rightarrow> HThrow e
      | Inr False \<Rightarrow> expandH maxDepth current rest q v h
      | Inr True \<Rightarrow>
          let (newBlocks, h1) = mapArr spread h (h_blocks current);
              h2 = writeMove h1 newBlocks i dir;
              hash = encodeState (viewArr h2 newBlocks)
          in
            if hash \<notin> v then
              let newPath = h_path current @ [\<lparr>blockIndex = i, direction = dir\<rparr>] in
              if isSolved (viewArr h2 newBlocks)
              then HReturn \<lparr>h_blocks = newBlocks, h_path = newPath\<rparr> q v h2
              else if lengthBelow (length newPath) maxDepth
              then expandH maxDepth current rest
                     (q @ [\<lparr>h_blocks = newBlocks, h_path = newPath\<rparr>]) (insert hash v) h2
              else expandH maxDepth current rest q v h2
            else expandH maxDepth current rest q v h2)"

function bfsH ::
  "number \<Rightarrow> HState list \<Rightarrow> string set \<Rightarrow> nat \<Rightarrow> heap
     \<Rightarrow> (error + SimplifiedMove list option) \<times> heap" where
  "bfsH maxDepth q v k h =
     (if k < length q then
        if int k > MAX_ITERATIONS then (Inr None, h)
        else
          let current = q ! k in
          case expandH maxDepth current (candidatesH h current) q v h of
            HReturn goal q' v' h' \<Rightarrow> (Inr (Some (h_path goal)), h')
          | HThrow e \<Rightarrow> (Inl e, h)
          | HContinue q' v' h' \<Rightarrow> bfsH maxDepth q' v' (k + 1) h'
      else (Inr None, h))"
  by pat_completeness auto
termination
  by (relation "measure (\<lambda>(maxDepth, q, v, k, h). nat MAX_ITERATIONS + 1 - k)") auto

text \<open>
  \<open>findSolution\<close> called with the reference \<open>initialBlocks\<close> to the caller's array: the
  value it returns and the store it leaves.
\<close>

definition findSolutionH ::
  "heap \<Rightarrow> nat \<Rightarrow> number option \<Rightarrow> (error + SimplifiedMove list option) \<times> heap" where
  "findSolutionH h initialBlocks maxDepthArg =
     (let maxDepth = maxDepthOf maxDepthArg;
          (startBlocks, h1) = mapArr toSolverObj h initialBlocks;
          startHash = encodeState (viewArr h1 startBlocks)
      in
        if isSolved (viewArr h1 startBlocks) then (Inr (Some []), h1)
        else bfsH maxDepth [\<lparr>h_blocks = startBlocks, h_path = []\<rparr>] {startHash} 0 h1)"

text \<open>
  The caller's array read as a list of \<open>Block\<close> values (a block of the caller has its
  \<open>id\<close>), and the relation "the store \<open>h'\<close> has every object and array of \<open>h\<close>, unchanged".
\<close>

definition blockOf :: "obj \<Rightarrow> Block" where
  "blockOf ob =
     \<lparr>b_id = (case o_id ob of Some s \<Rightarrow> s | None \<Rightarrow> []), b_type = o_type ob, b_x = o_x ob,
      b_y = o_y ob, b_width = o_width ob, b_height = o_height ob, b_label = o_label ob\<rparr>"

definition readBlocks :: "heap \<Rightarrow> nat \<Rightarrow> Block list" where
  "readBlocks h a = map (\<lambda>r. blockOf (objs h ! r)) (arrs h ! a)"

definition preserved :: "heap \<Rightarrow> heap \<Rightarrow> bool" where
  "preserved h h' \<longleftrightarrow>
     take (length (objs h)) (objs h') = objs h \<and> take (length (arrs h)) (arrs h') = arrs h"

definition liveArr :: "heap \<Rightarrow> nat \<Rightarrow> bool" where
  "liveArr h a \<longleftrightarrow> a < length (arrs h) \<and> list_all (\<lambda>r. r < length (objs h)) (arrs h ! a)"

definition refines :: "heap \<Rightarrow> HState \<Rightarrow> SolverState \<Rightarrow> bool" where
  "refines h n st \<longleftrightarrow>
     liveArr h (h_blocks n) \<and> viewArr h (h_blocks n) = blocks st \<and> h_path n = path st"

text \<open>An expansion over the store that mirrors an expansion of the model without store.\<close>

definition simulates :: "heap \<Rightarrow> hexpansion \<Rightarrow> expansion \<Rightarrow> bool" where
  "simulates h he e =
     (case e of
        Continue q' v' \<Rightarrow>
          (case he of
             HContinue hq' hv' h' \<Rightarrow> hv' = v' \<and> preserved h h' \<and> list_all2 (refines h') hq' q'
           | _ \<Rightarrow> False)
      | Return g q' v' \<Rightarrow>
          (case he of
             HReturn hg hq' hv' h' \<Rightarrow>
               hv' = v' \<and> preserved h h' \<and> refines h' hg g \<and> list_all2 (refines h') hq' q'
           | _ \<Rightarrow> False)
      | Throw err \<Rightarrow> he = HThrow err)"

text \<open>The value \<open>findSolution\<close> returns for each outcome of the run.\<close>

definition resultOf :: "outcome \<Rightarrow> error + SimplifiedMove list option" where
  "resultOf oc =
     (case oc of Solved goal \<Rightarrow> Inr (Some (path goal)) | NoSolution \<Rightarrow> Inr None | Raised e \<Rightarrow> Inl e)"

section \<open>Well-formed boards and solutions\<close>






text \<open>A solution of a board: a move list that replays legally to a board with the King at
  the goal.\<close>



section \<open>Invariants of the breadth-first loop\<close>




section \<open>Fixtures\<close>

text \<open>
  A King one cell above the goal with a Pawn in its way: the Pawn has to step aside first.
\<close>

definition blockedKing :: "Block list" where
  "blockedKing =
     [\<lparr>b_id = ''p1'', b_type = PAWN, b_x = 1, b_y = 4, b_width = 1, b_height = 1,
        b_label = Some ''PAWN''\<rparr>,
      \<lparr>b_id = ''king'', b_type = KING, b_x = 1, b_y = 2, b_width = 2, b_height = 2,
        b_label = Some ''KING''\<rparr>]"


text \<open>
  Seven Pawns and no King: a board with nothing to solve and 77520 ways of placing its
  pieces. The cells are numbered along a path that snakes through the grid, left to right
  on the even rows and right to left on the odd ones, so that consecutive cells are
  neighbours; the Pawns start on cells 0 to 6, and \<open>towards k\<close> is the direction from cell
  \<open>k\<close> to the next one.
\<close>

definition cell :: "nat \<Rightarrow> int \<times> int" where
  "cell k = (if even (k div 4) then int (k mod 4) else 3 - int (k mod 4), int (k div 4))"

definition pawnBlock :: "nat \<Rightarrow> Block" where
  "pawnBlock k =
     \<lparr>b_id = ''pawn'', b_type = PAWN, b_x = fst (cell k), b_y = snd (cell k),
      b_width = 1, b_height = 1, b_label = None\<rparr>"

definition sevenPawns :: "Block list" where
  "sevenPawns = map pawnBlock [0 ..< 7]"

definition pawnAt :: "nat \<Rightarrow> SolverBlock" where
  "pawnAt k = toSolverBlock (pawnBlock k)"


section \<open>The move generator\<close>

lemma translate_fields:
  "s_type (translate d b) = s_type b"
  "s_width (translate d b) = s_width b"
  "s_height (translate d b) = s_height b"
  "s_x (translate d b) = (if d = LEFT then s_x b - 1 else if d = RIGHT then s_x b + 1 else s_x b)"
  "s_y (translate d b) = (if d = UP then s_y b - 1 else if d = DOWN then s_y b + 1 else s_y b)"
  by (cases d; simp)+

lemma legal_iff:
  "legal i d bs \<longleftrightarrow>
     inGrid (translate d (bs ! i)) \<and>
     (\<forall>j < length bs. j \<noteq> i \<longrightarrow> \<not> overlap (translate d (bs ! i)) (bs ! j))"
  by (auto simp: legal_def)

lemma collisionFree_iff:
  "collisionFree m nx ny b bs is \<longleftrightarrow>
     (\<forall>i \<in> set is. i \<noteq> m \<longrightarrow>
        \<not> (nx < s_x (bs ! i) + s_width (bs ! i) \<and> nx + s_width b > s_x (bs ! i) \<and>
           ny < s_y (bs ! i) + s_height (bs ! i) \<and> ny + s_height b > s_y (bs ! i)))"
  by (induction "is") (auto simp: Let_def)

lemma canMove_legal:
  assumes "i < length bs"
  shows "canMove i d bs = Inr (legal i d bs)"
proof -
  let ?t = "translate d (bs ! i)"
  have nx: "(if d = LEFT then s_x (bs ! i) - 1 else if d = RIGHT then s_x (bs ! i) + 1
             else s_x (bs ! i)) = s_x ?t"
    by (simp add: translate_fields)
  have ny: "(if d = UP then s_y (bs ! i) - 1 else if d = DOWN then s_y (bs ! i) + 1
             else s_y (bs ! i)) = s_y ?t"
    by (simp add: translate_fields)
  have free: "collisionFree i (s_x ?t) (s_y ?t) (bs ! i) bs [0 ..< length bs] \<longleftrightarrow>
      (\<forall>j < length bs. j \<noteq> i \<longrightarrow> \<not> overlap ?t (bs ! j))"
    unfolding collisionFree_iff overlap_def by (auto simp: translate_fields)
  show ?thesis
  proof (cases "inGrid ?t")
    case True
    then have "\<not> (s_x ?t < 0 \<or> s_y ?t < 0 \<or> s_x ?t + s_width (bs ! i) > GRID_WIDTH \<or>
                  s_y ?t + s_height (bs ! i) > GRID_HEIGHT)"
      by (auto simp: inGrid_def translate_fields)
    with assms True free show ?thesis
      unfolding canMove_def Let_def nx ny legal_iff by simp
  next
    case False
    then have "s_x ?t < 0 \<or> s_y ?t < 0 \<or> s_x ?t + s_width (bs ! i) > GRID_WIDTH \<or>
               s_y ?t + s_height (bs ! i) > GRID_HEIGHT"
      by (auto simp: inGrid_def translate_fields)
    with assms False show ?thesis
      unfolding canMove_def Let_def nx ny legal_iff by simp
  qed
qed

lemma canMove_out_of_range: "\<not> i < length bs \<Longrightarrow> canMove i d bs = Inl TypeError"
  by (simp add: canMove_def)

lemma canMove_True_iff: "canMove i d bs = Inr True \<longleftrightarrow> i < length bs \<and> legal i d bs"
  by (cases "i < length bs") (simp_all add: canMove_legal canMove_out_of_range)

lemma applyMove_translate: "applyMove i d bs = bs[i := translate d (bs ! i)]"
  by (cases d) (simp_all add: applyMove_def Let_def)

lemma length_applyMove: "length (applyMove i d bs) = length bs"
  by (simp add: applyMove_translate)

text \<open>
  C3. For a piece index \<open>i\<close> of the list, \<open>canMove\<close> answers \<open>true\<close> exactly when the
  rectangle of piece \<open>i\<close>, moved one cell in the direction, (a) stays in the grid and (b)
  overlaps the rectangle of no other piece; the move, once applied, relocates piece \<open>i\<close> by
  that one cell and leaves every other piece as it was.
\<close>

theorem canMove_iff_bounds_and_collision:
  assumes "i < length bs"
  shows "canMove i d bs =
           Inr (inGrid (translate d (bs ! i)) \<and>
                (\<forall>j < length bs. j \<noteq> i \<longrightarrow> \<not> overlap (translate d (bs ! i)) (bs ! j)))
         \<and> length (applyMove i d bs) = length bs
         \<and> applyMove i d bs ! i = translate d (bs ! i)
         \<and> (\<forall>j < length bs. j \<noteq> i \<longrightarrow> applyMove i d bs ! j = bs ! j)"
  using assms canMove_legal [OF assms, of d]
  by (simp add: legal_iff applyMove_translate)

theorem canMove_iff_bounds_and_collision_witness:
  "(0::nat) < length [\<lparr>s_type = KING, s_x = 1, s_y = 2, s_width = 2, s_height = 2\<rparr>,
                      \<lparr>s_type = PAWN, s_x = 0, s_y = 4, s_width = 1, s_height = 1\<rparr>]
   \<and> canMove 0 DOWN [\<lparr>s_type = KING, s_x = 1, s_y = 2, s_width = 2, s_height = 2\<rparr>,
                      \<lparr>s_type = PAWN, s_x = 0, s_y = 4, s_width = 1, s_height = 1\<rparr>] = Inr True
   \<and> canMove 0 LEFT [\<lparr>s_type = KING, s_x = 1, s_y = 2, s_width = 2, s_height = 2\<rparr>,
                      \<lparr>s_type = PAWN, s_x = 0, s_y = 4, s_width = 1, s_height = 1\<rparr>] = Inr True
   \<and> applyMove 0 DOWN [\<lparr>s_type = KING, s_x = 1, s_y = 2, s_width = 2, s_height = 2\<rparr>,
                      \<lparr>s_type = PAWN, s_x = 0, s_y = 4, s_width = 1, s_height = 1\<rparr>] ! 1
       = \<lparr>s_type = PAWN, s_x = 0, s_y = 4, s_width = 1, s_height = 1\<rparr>"
  using
    canMove_iff_bounds_and_collision [of 0
      "[\<lparr>s_type = KING, s_x = 1, s_y = 2, s_width = 2, s_height = 2\<rparr>,
        \<lparr>s_type = PAWN, s_x = 0, s_y = 4, s_width = 1, s_height = 1\<rparr>]" DOWN]
    canMove_iff_bounds_and_collision [of 0
      "[\<lparr>s_type = KING, s_x = 1, s_y = 2, s_width = 2, s_height = 2\<rparr>,
        \<lparr>s_type = PAWN, s_x = 0, s_y = 4, s_width = 1, s_height = 1\<rparr>]" LEFT]
  by (simp add: inGrid_def overlap_def GRID_WIDTH_def GRID_HEIGHT_def)

section \<open>The goal predicate\<close>

lemma isSolved_iff_kingAtGoal: "isSolved bs \<longleftrightarrow> kingAtGoal bs"
proof
  assume "isSolved bs"
  then obtain k where k: "find (\<lambda>b. s_type b = KING) bs = Some k" "s_x k = 1" "s_y k = 3"
    by (auto simp: isSolved_def split: option.splits)
  from k(1) obtain i where "i < length bs" "s_type (bs ! i) = KING" "k = bs ! i"
      "\<forall>j < i. s_type (bs ! j) \<noteq> KING"
    unfolding find_Some_iff by blast
  with k(2,3) show "kingAtGoal bs"
    unfolding kingAtGoal_def by auto
next
  assume "kingAtGoal bs"
  then obtain i where i: "i < length bs" "s_type (bs ! i) = KING" "s_x (bs ! i) = 1"
      "s_y (bs ! i) = 3" "\<forall>j < i. s_type (bs ! j) \<noteq> KING"
    unfolding kingAtGoal_def by auto
  then have "find (\<lambda>b. s_type b = KING) bs = Some (bs ! i)"
    unfolding find_Some_iff by blast
  with i show "isSolved bs"
    by (simp add: isSolved_def)
qed

lemma toSolverBlock_fields:
  "s_type (toSolverBlock b) = b_type b"
  "s_x (toSolverBlock b) = b_x b"
  "s_y (toSolverBlock b) = b_y b"
  "s_width (toSolverBlock b) = b_width b"
  "s_height (toSolverBlock b) = b_height b"
  by (simp_all add: toSolverBlock_def)

section \<open>Already solved boards\<close>

text \<open>
  C7. When the King (the first piece of kind KING) of the input board has its top-left at
  (1, 3), \<open>findSolution\<close> returns the empty list at once: no node is dequeued and no state
  is enqueued.
\<close>

theorem findSolution_already_solved:
  assumes "k < length initialBlocks"
    and "b_type (initialBlocks ! k) = KING"
    and "b_x (initialBlocks ! k) = 1" and "b_y (initialBlocks ! k) = 3"
    and "\<forall>j < k. b_type (initialBlocks ! j) \<noteq> KING"
  shows "findSolution initialBlocks maxDepthArg = Inr (Some [])
         \<and> head (search initialBlocks maxDepthArg) = 0
         \<and> queue (search initialBlocks maxDepthArg) = []"
proof -
  have "kingAtGoal (map toSolverBlock initialBlocks)"
    unfolding kingAtGoal_def using assms
    by (intro bexI [of _ k]) (auto simp: toSolverBlock_fields)
  then have "isSolved (map toSolverBlock initialBlocks)"
    by (simp add: isSolved_iff_kingAtGoal)
  then show ?thesis
    by (simp add: findSolution_def search_def Let_def)
qed

theorem findSolution_already_solved_witness:
  "findSolution
     [\<lparr>b_id = ''p1'', b_type = PAWN, b_x = 0, b_y = 0, b_width = 1, b_height = 1,
        b_label = None\<rparr>,
      \<lparr>b_id = ''king'', b_type = KING, b_x = 1, b_y = 3, b_width = 2, b_height = 2,
        b_label = Some ''KING''\<rparr>] None = Inr (Some [])"
  using findSolution_already_solved [of 1
     "[\<lparr>b_id = ''p1'', b_type = PAWN, b_x = 0, b_y = 0, b_width = 1, b_height = 1,
         b_label = None\<rparr>,
       \<lparr>b_id = ''king'', b_type = KING, b_x = 1, b_y = 3, b_width = 2, b_height = 2,
         b_label = Some ''KING''\<rparr>]" None]
  by simp

section \<open>Only the five solver fields matter\<close>

text \<open>
  C10. Two input lists of the same length that agree, position by position, on type, x, y,
  width and height give the same result (and the same run), whatever their ids and labels.
\<close>

theorem findSolution_ignores_id_and_label:
  assumes "length bs1 = length bs2"
    and "\<forall>i < length bs1.
           b_type (bs1 ! i) = b_type (bs2 ! i) \<and> b_x (bs1 ! i) = b_x (bs2 ! i) \<and>
           b_y (bs1 ! i) = b_y (bs2 ! i) \<and> b_width (bs1 ! i) = b_width (bs2 ! i) \<and>
           b_height (bs1 ! i) = b_height (bs2 ! i)"
  shows "findSolution bs1 maxDepthArg = findSolution bs2 maxDepthArg"
proof -
  have "map toSolverBlock bs1 = map toSolverBlock bs2"
    using assms by (intro nth_equalityI) (simp_all add: toSolverBlock_def)
  then show ?thesis
    by (simp add: findSolution_def search_def)
qed

theorem findSolution_ignores_id_and_label_witness:
  "findSolution
     [\<lparr>b_id = ''king'', b_type = KING, b_x = 1, b_y = 2, b_width = 2, b_height = 2,
        b_label = Some ''KING''\<rparr>] None
   = findSolution
     [\<lparr>b_id = ''k'', b_type = KING, b_x = 1, b_y = 2, b_width = 2, b_height = 2,
        b_label = None\<rparr>] None"
  using findSolution_ignores_id_and_label [of
     "[\<lparr>b_id = ''king'', b_type = KING, b_x = 1, b_y = 2, b_width = 2, b_height = 2,
         b_label = Some ''KING''\<rparr>]"
     "[\<lparr>b_id = ''k'', b_type = KING, b_x = 1, b_y = 2, b_width = 2, b_height = 2,
         b_label = None\<rparr>]" None]
  by simp

section \<open>Reasoning about one expansion and about the loop\<close>

lemma child_simps:
  "blocks (child cur i d) = applyMove i d (blocks cur)"
  "path (child cur i d) = path cur @ [\<lparr>blockIndex = i, direction = d\<rparr>]"
  by (simp_all add: child_def)

lemma expand_Cons:
  "expand maxDepth cur ((i, d) # rest) q v =
     (if canMove i d (blocks cur) = Inr True then
        if keyOf (child cur i d) \<notin> v then
          if isSolved (blocks (child cur i d)) then Return (child cur i d) q v
          else if lengthBelow (length (path cur) + 1) maxDepth
          then expand maxDepth cur rest (q @ [child cur i d]) (insert (keyOf (child cur i d)) v)
          else expand maxDepth cur rest q v
        else expand maxDepth cur rest q v
      else if canMove i d (blocks cur) = Inr False then expand maxDepth cur rest q v
      else Throw TypeError)"
proof (cases "canMove i d (blocks cur)")
  case (Inl e)
  then show ?thesis by (cases e) simp
next
  case (Inr b)
  then show ?thesis by (cases b) (simp_all add: Let_def keyOf_def child_def)
qed

text \<open>
  An invariant of the pair (queue, visited set) that every push keeps holds when the
  expansion ends; a returned goal state is a solved child whose key was not visited.
\<close>

lemma expand_Continue:
  assumes "expand maxDepth cur cs q v = Continue q' v'"
    and "P q v"
    and step: "\<And>i d q v. \<lbrakk>P q v; canMove i d (blocks cur) = Inr True;
            keyOf (child cur i d) \<notin> v; \<not> isSolved (blocks (child cur i d));
            lengthBelow (length (path cur) + 1) maxDepth\<rbrakk>
          \<Longrightarrow> P (q @ [child cur i d]) (insert (keyOf (child cur i d)) v)"
  shows "P q' v'"
  using assms(1,2)
proof (induction cs arbitrary: q v)
  case Nil
  then show ?case by simp
next
  case (Cons c cs)
  obtain i d where c: "c = (i, d)" by (cases c)
  let ?push = "canMove i d (blocks cur) = Inr True \<and> keyOf (child cur i d) \<notin> v \<and>
      \<not> isSolved (blocks (child cur i d)) \<and> lengthBelow (length (path cur) + 1) maxDepth"
  show ?case
  proof (cases ?push)
    case True
    then have "expand maxDepth cur cs (q @ [child cur i d]) (insert (keyOf (child cur i d)) v)
        = Continue q' v'"
      using Cons.prems(1) unfolding c expand_Cons by simp
    moreover have "P (q @ [child cur i d]) (insert (keyOf (child cur i d)) v)"
      using True step [OF Cons.prems(2)] by blast
    ultimately show ?thesis by (rule Cons.IH)
  next
    case False
    then have "expand maxDepth cur cs q v = Continue q' v'"
      using Cons.prems(1) unfolding c expand_Cons by (simp split: if_splits)
    then show ?thesis using Cons.prems(2) by (rule Cons.IH)
  qed
qed

lemma expand_Return:
  assumes "expand maxDepth cur cs q v = Return g q' v'"
    and "P q v"
    and step: "\<And>i d q v. \<lbrakk>P q v; canMove i d (blocks cur) = Inr True;
            keyOf (child cur i d) \<notin> v; \<not> isSolved (blocks (child cur i d));
            lengthBelow (length (path cur) + 1) maxDepth\<rbrakk>
          \<Longrightarrow> P (q @ [child cur i d]) (insert (keyOf (child cur i d)) v)"
  shows "P q' v' \<and> (\<exists>i d. (i, d) \<in> set cs \<and> canMove i d (blocks cur) = Inr True \<and>
           g = child cur i d \<and> isSolved (blocks g) \<and> keyOf g \<notin> v')"
  using assms(1,2)
proof (induction cs arbitrary: q v)
  case Nil
  then show ?case by simp
next
  case (Cons c cs)
  obtain i d where c: "c = (i, d)" by (cases c)
  let ?push = "canMove i d (blocks cur) = Inr True \<and> keyOf (child cur i d) \<notin> v \<and>
      \<not> isSolved (blocks (child cur i d)) \<and> lengthBelow (length (path cur) + 1) maxDepth"
  let ?found = "canMove i d (blocks cur) = Inr True \<and> keyOf (child cur i d) \<notin> v \<and>
      isSolved (blocks (child cur i d))"
  show ?case
  proof (cases ?found)
    case True
    then have "g = child cur i d" "q' = q" "v' = v"
      using Cons.prems(1) unfolding c expand_Cons by simp_all
    with True Cons.prems(2) c show ?thesis by auto
  next
    case notFound: False
    show ?thesis
    proof (cases ?push)
      case True
      then have "expand maxDepth cur cs (q @ [child cur i d])
          (insert (keyOf (child cur i d)) v) = Return g q' v'"
        using Cons.prems(1) unfolding c expand_Cons by simp
      moreover have "P (q @ [child cur i d]) (insert (keyOf (child cur i d)) v)"
        using True step [OF Cons.prems(2)] by blast
      ultimately have "P q' v' \<and> (\<exists>i d. (i, d) \<in> set cs \<and>
           canMove i d (blocks cur) = Inr True \<and>
           g = child cur i d \<and> isSolved (blocks g) \<and> keyOf g \<notin> v')"
        by (rule Cons.IH)
      then show ?thesis by auto
    next
      case False
      with notFound have "expand maxDepth cur cs q v = Return g q' v'"
        using Cons.prems(1) unfolding c expand_Cons by (simp split: if_splits)
      then have "P q' v' \<and> (\<exists>i d. (i, d) \<in> set cs \<and>
           canMove i d (blocks cur) = Inr True \<and>
           g = child cur i d \<and> isSolved (blocks g) \<and> keyOf g \<notin> v')"
        using Cons.prems(2) by (rule Cons.IH)
      then show ?thesis by auto
    qed
  qed
qed

lemma expand_Throw:
  assumes "expand maxDepth cur cs q v = Throw e"
  shows "\<exists>i d. (i, d) \<in> set cs \<and> \<not> i < length (blocks cur)"
  using assms
proof (induction cs arbitrary: q v)
  case Nil
  then show ?case by simp
next
  case (Cons c cs)
  obtain i d where c: "c = (i, d)" by (cases c)
  show ?case
  proof (cases "i < length (blocks cur)")
    case False
    with c show ?thesis by auto
  next
    case True
    then have "canMove i d (blocks cur) = Inr True \<or> canMove i d (blocks cur) = Inr False"
      by (simp add: canMove_legal)
    then have "\<exists>q1 v1. expand maxDepth cur cs q1 v1 = Throw e"
      using Cons.prems unfolding c expand_Cons by (auto split: if_splits)
    then obtain q1 v1 where "expand maxDepth cur cs q1 v1 = Throw e" by blast
    from Cons.IH [OF this] show ?thesis by auto
  qed
qed

lemma candidates_in_range: "(i, d) \<in> set (candidates cur) \<Longrightarrow> i < length (blocks cur)"
  by (auto simp: candidates_def)

lemma expand_candidates_no_Throw: "expand maxDepth cur (candidates cur) q v \<noteq> Throw e"
  using expand_Throw [of maxDepth cur "candidates cur" q v e]
  by (auto dest: candidates_in_range)

text \<open>
  An invariant \<open>I\<close> of (queue, visited, head) that every completed expansion keeps gives a
  property \<open>R\<close> of the finished run as soon as each way of stopping establishes it.
\<close>

lemma bfs_rule:
  assumes "I q v h"
    and cont: "\<And>q v h q' v'. \<lbrakk>I q v h; h < length q; int h \<le> MAX_ITERATIONS;
            expand maxDepth (q ! h) (candidates (q ! h)) q v = Continue q' v'\<rbrakk>
          \<Longrightarrow> I q' v' (h + 1)"
    and ret: "\<And>q v h g q' v'. \<lbrakk>I q v h; h < length q; int h \<le> MAX_ITERATIONS;
            expand maxDepth (q ! h) (candidates (q ! h)) q v = Return g q' v'\<rbrakk>
          \<Longrightarrow> R \<lparr>outcome = Solved g, queue = q', visited = v', head = h + 1\<rparr>"
    and budget: "\<And>q v h. \<lbrakk>I q v h; h < length q; int h > MAX_ITERATIONS\<rbrakk>
          \<Longrightarrow> R \<lparr>outcome = NoSolution, queue = q, visited = v, head = h\<rparr>"
    and empty: "\<And>q v h. \<lbrakk>I q v h; \<not> h < length q\<rbrakk>
          \<Longrightarrow> R \<lparr>outcome = NoSolution, queue = q, visited = v, head = h\<rparr>"
  shows "R (bfs maxDepth q v h)"
  using assms
proof (induction maxDepth q v h rule: bfs.induct)
  case (1 maxDepth q v h)
  note cont = "1.prems"(2) and ret = "1.prems"(3) and budget = "1.prems"(4)
    and empty = "1.prems"(5)
  show ?case
  proof (cases "h < length q")
    case False
    with empty [OF "1.prems"(1)] show ?thesis by simp
  next
    case inq: True
    show ?thesis
    proof (cases "int h > MAX_ITERATIONS")
      case True
      with inq budget [OF "1.prems"(1)] show ?thesis by simp
    next
      case False
      then have le: "int h \<le> MAX_ITERATIONS" by simp
      show ?thesis
      proof (cases "expand maxDepth (q ! h) (candidates (q ! h)) q v")
        case (Return g q' v')
        with inq False ret [OF "1.prems"(1) inq le Return] show ?thesis by simp
      next
        case (Continue q' v')
        have "I q' v' (h + 1)"
          by (rule cont [OF "1.prems"(1) inq le Continue])
        from "1.IH" [OF inq False refl Continue this cont ret budget empty] Continue inq False
        show ?thesis by simp
      next
        case (Throw e)
        with expand_candidates_no_Throw show ?thesis by blast
      qed
    qed
  qed
qed

declare bfs.simps [simp del]
lemma root_simps:
  "blocks (root bs) = map toSolverBlock bs"
  "path (root bs) = []"
  by (simp_all add: root_def)

lemma search_solved:
  "isSolved (map toSolverBlock bs) \<Longrightarrow>
   search bs md = \<lparr>outcome = Solved (root bs), queue = [], visited = {}, head = 0\<rparr>"
  by (simp add: search_def root_def Let_def)

lemma search_unsolved:
  "\<not> isSolved (map toSolverBlock bs) \<Longrightarrow>
   search bs md = bfs (maxDepthOf md) [root bs] {keyOf (root bs)} 0"
  by (simp add: search_def root_def keyOf_def Let_def)

lemma findSolution_Some_iff:
  "findSolution bs md = Inr (Some ms) \<longleftrightarrow>
     (\<exists>g. outcome (search bs md) = Solved g \<and> path g = ms)"
  by (auto simp: findSolution_def split: outcome.splits)

section \<open>Soundness of the returned moves\<close>

text \<open>
  The replay of the specification and the code agree step by step: \<open>canMove\<close> accepts
  exactly the legal moves of pieces of the list, and the move applied is the translation.
\<close>

lemma replay_Cons [simp]:
  "replay bs (m # ms) =
     (if canMove (blockIndex m) (direction m) bs = Inr True
      then replay (applyMove (blockIndex m) (direction m) bs) ms
      else None)"
  by (simp add: canMove_True_iff applyMove_translate)

declare replay.simps(2) [simp del]

lemma replay_append:
  "replay bs (ms @ ms') = (case replay bs ms of None \<Rightarrow> None | Some bs' \<Rightarrow> replay bs' ms')"
  by (induction ms arbitrary: bs) simp_all

lemma replay_child:
  assumes "replay start (path cur) = Some (blocks cur)"
    and "canMove i d (blocks cur) = Inr True"
  shows "replay start (path (child cur i d)) = Some (blocks (child cur i d))"
  using assms by (simp add: child_simps replay_append)

text \<open>Every node of the queue, and the goal node, carries a path that replays to its blocks.\<close>

lemma search_replays:
  "(\<forall>st \<in> set (queue (search bs md)).
      replay (map toSolverBlock bs) (path st) = Some (blocks st)) \<and>
   (\<forall>g. outcome (search bs md) = Solved g \<longrightarrow>
      replay (map toSolverBlock bs) (path g) = Some (blocks g) \<and> isSolved (blocks g))"
proof (cases "isSolved (map toSolverBlock bs)")
  case True
  then show ?thesis by (simp add: search_solved root_simps)
next
  case False
  let ?start = "map toSolverBlock bs"
  let ?I = "\<lambda>q (v :: string set) (h :: nat).
      \<forall>st \<in> set q. replay ?start (path st) = Some (blocks st)"
  let ?R = "\<lambda>S. (\<forall>st \<in> set (queue S). replay ?start (path st) = Some (blocks st)) \<and>
      (\<forall>g. outcome S = Solved g \<longrightarrow>
         replay ?start (path g) = Some (blocks g) \<and> isSolved (blocks g))"
  have push: "?I (q @ [child (q0 ! h) i d]) v' h'"
    if "?I q v h" "h < length q0" "?I q0 v0 h" "canMove i d (blocks (q0 ! h)) = Inr True"
    for q v h q0 v0 i d v' h'
    using that replay_child [of ?start "q0 ! h" i d] by auto
  have "?R (bfs (maxDepthOf md) [root bs] {keyOf (root bs)} 0)"
  proof (rule bfs_rule [where I = ?I and R = ?R])
    show "?I [root bs] {keyOf (root bs)} 0"
      by (simp add: root_simps)
  next
    fix q v h q' v'
    assume I: "?I q v h" and h: "h < length q"
      and e: "expand (maxDepthOf md) (q ! h) (candidates (q ! h)) q v = Continue q' v'"
    show "?I q' v' (h + 1)"
      by (rule expand_Continue [OF e, where P = "\<lambda>q v. ?I q v h"])
        (use I h push in blast)+
  next
    fix q v h g q' v'
    assume I: "?I q v h" and h: "h < length q"
      and e: "expand (maxDepthOf md) (q ! h) (candidates (q ! h)) q v = Return g q' v'"
    have "?I q' v' h \<and> (\<exists>i d. (i, d) \<in> set (candidates (q ! h)) \<and>
        canMove i d (blocks (q ! h)) = Inr True \<and>
        g = child (q ! h) i d \<and> isSolved (blocks g) \<and> keyOf g \<notin> v')"
      by (rule expand_Return [OF e, where P = "\<lambda>q v. ?I q v h"])
        (use I h push in blast)+
    moreover have "replay ?start (path (q ! h)) = Some (blocks (q ! h))"
      using I h by simp
    ultimately show "?R \<lparr>outcome = Solved g, queue = q', visited = v', head = h + 1\<rparr>"
      using replay_child [of ?start "q ! h"] by auto
  qed simp_all
  with False show ?thesis by (simp add: search_unsolved)
qed

text \<open>
  C1. When \<open>findSolution\<close> returns a non-empty move list, replaying it from the input board
  never meets an illegal move (each \<open>blockIndex\<close> is an index of the list, each move keeps
  the moved piece in the grid and off every other piece of the board reached so far), and
  the board reached at the end has its King at the goal cell (1, 3).
\<close>

theorem findSolution_sound:
  assumes "findSolution initialBlocks maxDepthArg = Inr (Some ms)" and "ms \<noteq> []"
  shows "\<exists>final. replay (map toSolverBlock initialBlocks) ms = Some final \<and> kingAtGoal final"
proof -
  from assms(1) obtain g where "outcome (search initialBlocks maxDepthArg) = Solved g"
      "path g = ms"
    unfolding findSolution_Some_iff by blast
  with search_replays [of initialBlocks maxDepthArg]
  have "replay (map toSolverBlock initialBlocks) ms = Some (blocks g)" "isSolved (blocks g)"
    by auto
  then show ?thesis
    by (auto simp: isSolved_iff_kingAtGoal)
qed

lemma findSolution_blockedKing:
  "findSolution blockedKing None
   = Inr (Some [\<lparr>blockIndex = 0, direction = LEFT\<rparr>, \<lparr>blockIndex = 1, direction = DOWN\<rparr>])"
  by code_simp

lemma blockedKing_needs_the_pawn_to_move:
  "\<not> legal 1 DOWN (map toSolverBlock blockedKing)"
  by code_simp

theorem findSolution_sound_witness:
  "(\<exists>final. replay (map toSolverBlock blockedKing)
       [\<lparr>blockIndex = 0, direction = LEFT\<rparr>, \<lparr>blockIndex = 1, direction = DOWN\<rparr>] = Some final
     \<and> kingAtGoal final)
   \<and> replay (map toSolverBlock blockedKing) [\<lparr>blockIndex = 1, direction = DOWN\<rparr>] = None"
proof
  show "\<exists>final. replay (map toSolverBlock blockedKing)
       [\<lparr>blockIndex = 0, direction = LEFT\<rparr>, \<lparr>blockIndex = 1, direction = DOWN\<rparr>] = Some final
     \<and> kingAtGoal final"
    by (rule findSolution_sound [OF findSolution_blockedKing]) simp
  show "replay (map toSolverBlock blockedKing) [\<lparr>blockIndex = 1, direction = DOWN\<rparr>] = None"
    using blockedKing_needs_the_pawn_to_move
    by (simp add: replay.simps(2) del: replay_Cons)
qed

section \<open>Valid boards stay valid\<close>

lemma overlap_sym: "overlap A B \<longleftrightarrow> overlap B A"
  by (auto simp: overlap_def)

lemma overlap_translate_right: "overlap A (translate d B) \<longleftrightarrow> overlap (translate d B) A"
  by (rule overlap_sym)

lemma applyMove_nth:
  "j < length bs \<Longrightarrow>
   applyMove i d bs ! j = (if j = i then translate d (bs ! i) else bs ! j)"
  by (simp add: applyMove_translate)

lemma allInGrid_applyMove:
  assumes "allInGrid bs" and "legal i d bs"
  shows "allInGrid (applyMove i d bs)"
  using assms
  by (auto simp: allInGrid_def legal_iff length_applyMove applyMove_nth)

lemma noOverlap_applyMove:
  assumes "noOverlap bs" and "i < length bs" and "legal i d bs"
  shows "noOverlap (applyMove i d bs)"
  unfolding noOverlap_def
proof (intro ballI impI)
  fix a b
  assume a: "a \<in> {0 ..< length (applyMove i d bs)}"
    and b: "b \<in> {0 ..< length (applyMove i d bs)}" and ab: "a \<noteq> b"
  then have la: "a < length bs" and lb: "b < length bs"
    by (simp_all add: length_applyMove)
  consider "a = i" | "b = i" | "a \<noteq> i" "b \<noteq> i" by blast
  then show "\<not> overlap (applyMove i d bs ! a) (applyMove i d bs ! b)"
  proof cases
    case 1
    with ab la lb assms(3) show ?thesis
      by (simp add: applyMove_nth legal_iff)
  next
    case 2
    with ab la lb assms(3) have "\<not> overlap (translate d (bs ! i)) (bs ! a)"
      by (simp add: legal_iff)
    with 2 ab la lb show ?thesis
      by (simp add: applyMove_nth overlap_sym [of "bs ! a"])
  next
    case 3
    with ab la lb assms(1) show ?thesis
      by (simp add: applyMove_nth noOverlap_def)
  qed
qed

lemma validBoard_child:
  assumes "validBoard (blocks cur)" and "canMove i d (blocks cur) = Inr True"
  shows "validBoard (blocks (child cur i d))"
  using assms allInGrid_applyMove [of "blocks cur" i d] noOverlap_applyMove [of "blocks cur" i d]
  by (simp add: validBoard_def child_simps canMove_True_iff)

text \<open>
  C5. From an input board that is valid (its pieces inside the grid and pairwise
  non-overlapping, the precondition of section 6), every state the search enqueues and the
  state whose path it returns have all their pieces inside the grid and pairwise
  non-overlapping: each expansion step preserves the invariant.
\<close>

theorem search_keeps_boards_valid:
  assumes "validBoard (map toSolverBlock initialBlocks)"
  shows "(\<forall>st \<in> set (queue (search initialBlocks maxDepthArg)). validBoard (blocks st)) \<and>
         (\<forall>g. outcome (search initialBlocks maxDepthArg) = Solved g \<longrightarrow> validBoard (blocks g))"
proof (cases "isSolved (map toSolverBlock initialBlocks)")
  case True
  with assms show ?thesis by (simp add: search_solved root_simps)
next
  case False
  let ?I = "\<lambda>q (v :: string set) (h :: nat). \<forall>st \<in> set q. validBoard (blocks st)"
  let ?R = "\<lambda>S. (\<forall>st \<in> set (queue S). validBoard (blocks st)) \<and>
      (\<forall>g. outcome S = Solved g \<longrightarrow> validBoard (blocks g))"
  have push: "?I (q @ [child (q0 ! h) i d]) v' h'"
    if "?I q v h" "h < length q0" "?I q0 v0 h" "canMove i d (blocks (q0 ! h)) = Inr True"
    for q v h q0 v0 i d v' h'
    using that validBoard_child [of "q0 ! h" i d] by auto
  have "?R (bfs (maxDepthOf maxDepthArg) [root initialBlocks] {keyOf (root initialBlocks)} 0)"
  proof (rule bfs_rule [where I = ?I and R = ?R])
    show "?I [root initialBlocks] {keyOf (root initialBlocks)} 0"
      using assms by (simp add: root_simps)
  next
    fix q v h q' v'
    assume I: "?I q v h" and h: "h < length q"
      and e: "expand (maxDepthOf maxDepthArg) (q ! h) (candidates (q ! h)) q v = Continue q' v'"
    show "?I q' v' (h + 1)"
      by (rule expand_Continue [OF e, where P = "\<lambda>q v. ?I q v h"])
        (use I h push in blast)+
  next
    fix q v h g q' v'
    assume I: "?I q v h" and h: "h < length q"
      and e: "expand (maxDepthOf maxDepthArg) (q ! h) (candidates (q ! h)) q v = Return g q' v'"
    have "?I q' v' h \<and> (\<exists>i d. (i, d) \<in> set (candidates (q ! h)) \<and>
        canMove i d (blocks (q ! h)) = Inr True \<and>
        g = child (q ! h) i d \<and> isSolved (blocks g) \<and> keyOf g \<notin> v')"
      by (rule expand_Return [OF e, where P = "\<lambda>q v. ?I q v h"])
        (use I h push in blast)+
    moreover have "validBoard (blocks (q ! h))"
      using I h by simp
    ultimately show "?R \<lparr>outcome = Solved g, queue = q', visited = v', head = h + 1\<rparr>"
      using validBoard_child [of "q ! h"] by auto
  qed simp_all
  with False show ?thesis by (simp add: search_unsolved)
qed

lemma search_blockedKing:
  "outcome (search blockedKing None)
   = Solved \<lparr>blocks =
        [\<lparr>s_type = PAWN, s_x = 0, s_y = 4, s_width = 1, s_height = 1\<rparr>,
         \<lparr>s_type = KING, s_x = 1, s_y = 3, s_width = 2, s_height = 2\<rparr>],
      path = [\<lparr>blockIndex = 0, direction = LEFT\<rparr>, \<lparr>blockIndex = 1, direction = DOWN\<rparr>]\<rparr>"
  "length (queue (search blockedKing None)) = 8"
  by (code_simp, code_simp)

lemma blockedKing_valid: "validBoard (map toSolverBlock blockedKing)"
  by code_simp

theorem search_keeps_boards_valid_witness:
  "validBoard (map toSolverBlock blockedKing) \<and>
   length (queue (search blockedKing None)) = 8 \<and>
   list_all (\<lambda>st. validBoard (blocks st)) (queue (search blockedKing None)) \<and>
   validBoard
     [\<lparr>s_type = PAWN, s_x = 0, s_y = 4, s_width = 1, s_height = 1\<rparr>,
      \<lparr>s_type = KING, s_x = 1, s_y = 3, s_width = 2, s_height = 2\<rparr>]"
  using search_keeps_boards_valid [OF blockedKing_valid, of None] search_blockedKing blockedKing_valid
  unfolding list_all_iff by auto

section \<open>No canonical key is enqueued twice\<close>

text \<open>
  What an expansion does to the queue and the visited set: it appends nodes to the queue,
  adds exactly their keys to the visited set, and every appended key was unvisited and is
  appended once.
\<close>

lemma expand_appends:
  assumes "expand maxDepth cur cs q v = Continue q' v' \<or> expand maxDepth cur cs q v = Return g q' v'"
  shows "take (length q) q' = q \<and>
         v' = v \<union> set (map keyOf (drop (length q) q')) \<and>
         distinct (map keyOf (drop (length q) q')) \<and>
         set (map keyOf (drop (length q) q')) \<inter> v = {}"
proof -
  let ?P = "\<lambda>q' v'. take (length q) q' = q \<and>
         v' = v \<union> set (map keyOf (drop (length q) q')) \<and>
         distinct (map keyOf (drop (length q) q')) \<and>
         set (map keyOf (drop (length q) q')) \<inter> v = {}"
  have start: "?P q v" by simp
  have step: "?P (q1 @ [c]) (insert (keyOf c) v1)" if "?P q1 v1" "keyOf c \<notin> v1" for q1 v1 c
  proof -
    from that(1) have len: "length q \<le> length q1"
      by (metis length_take min.cobounded2 min.commute)
    with that show ?thesis by auto
  qed
  from assms show ?thesis
  proof
    assume "expand maxDepth cur cs q v = Continue q' v'"
    then show ?thesis
      by (rule expand_Continue [where P = ?P]) (use start step in blast)+
  next
    assume "expand maxDepth cur cs q v = Return g q' v'"
    then have "?P q' v' \<and> (\<exists>i d. (i, d) \<in> set cs \<and> canMove i d (blocks cur) = Inr True \<and>
           g = child cur i d \<and> isSolved (blocks g) \<and> keyOf g \<notin> v')"
      by (rule expand_Return [where P = ?P]) (use start step in blast)+
    then show ?thesis by blast
  qed
qed

lemma expand_keeps_keys_distinct:
  assumes "expand maxDepth cur cs q v = Continue q' v' \<or> expand maxDepth cur cs q v = Return g q' v'"
    and "distinct (map keyOf q)" and "v = set (map keyOf q)"
  shows "distinct (map keyOf q') \<and> v' = set (map keyOf q')"
proof -
  from expand_appends [OF assms(1)]
  have t: "take (length q) q' = q"
    and v': "v' = v \<union> set (map keyOf (drop (length q) q'))"
    and d: "distinct (map keyOf (drop (length q) q'))"
    and i: "set (map keyOf (drop (length q) q')) \<inter> v = {}"
    by blast+
  have q': "q' = q @ drop (length q) q'"
    using t by (metis append_take_drop_id)
  have "distinct (map keyOf (q @ drop (length q) q'))"
    using assms(2,3) d i by auto
  moreover have "v' = set (map keyOf (q @ drop (length q) q'))"
    using v' assms(3) by auto
  ultimately show ?thesis using q' by simp
qed

lemma search_keys_distinct:
  "distinct (map keyOf (queue (search bs md))) \<and>
   visited (search bs md) = set (map keyOf (queue (search bs md)))"
proof (cases "isSolved (map toSolverBlock bs)")
  case True
  then show ?thesis by (simp add: search_solved)
next
  case False
  let ?I = "\<lambda>q v (h :: nat). distinct (map keyOf q) \<and> v = set (map keyOf q)"
  let ?R = "\<lambda>S. distinct (map keyOf (queue S)) \<and> visited S = set (map keyOf (queue S))"
  have "?R (bfs (maxDepthOf md) [root bs] {keyOf (root bs)} 0)"
  proof (rule bfs_rule [where I = ?I and R = ?R])
    show "?I [root bs] {keyOf (root bs)} 0" by simp
  next
    fix q v h q' v'
    assume "?I q v h"
      and "expand (maxDepthOf md) (q ! h) (candidates (q ! h)) q v = Continue q' v'"
    then show "?I q' v' (h + 1)"
      using expand_keeps_keys_distinct [of "maxDepthOf md" "q ! h" "candidates (q ! h)" q v q' v']
      by blast
  next
    fix q v h g q' v'
    assume "?I q v h"
      and "expand (maxDepthOf md) (q ! h) (candidates (q ! h)) q v = Return g q' v'"
    then show "?R \<lparr>outcome = Solved g, queue = q', visited = v', head = h + 1\<rparr>"
      using expand_keeps_keys_distinct [of "maxDepthOf md" "q ! h" "candidates (q ! h)" q v q' v' g]
      by simp
  qed simp_all
  with False show ?thesis by (simp add: search_unsolved)
qed

text \<open>
  C6. Within one run no canonical key is enqueued twice: the keys of the nodes ever pushed
  on the queue are pairwise distinct and are exactly the visited set; and each expansion
  only appends nodes to the queue and only adds keys to the visited set, every appended
  node having a key that was not visited before and that is in the visited set afterwards.
\<close>

theorem no_key_enqueued_twice:
  "distinct (map keyOf (queue (search initialBlocks maxDepthArg))) \<and>
   visited (search initialBlocks maxDepthArg)
     = set (map keyOf (queue (search initialBlocks maxDepthArg))) \<and>
   (expand maxDepth cur cs q v = Continue q' v' \<or> expand maxDepth cur cs q v = Return g q' v'
    \<longrightarrow> take (length q) q' = q \<and> v \<subseteq> v' \<and>
        v' = v \<union> set (map keyOf (drop (length q) q')) \<and>
        distinct (map keyOf (drop (length q) q')) \<and>
        set (map keyOf (drop (length q) q')) \<inter> v = {})"
proof (intro conjI impI)
  assume e: "expand maxDepth cur cs q v = Continue q' v' \<or>
    expand maxDepth cur cs q v = Return g q' v'"
  from expand_appends [OF e]
  show "take (length q) q' = q" "v' = v \<union> set (map keyOf (drop (length q) q'))"
    "distinct (map keyOf (drop (length q) q'))"
    "set (map keyOf (drop (length q) q')) \<inter> v = {}"
    by blast+
  then show "v \<subseteq> v'" by blast
qed (use search_keys_distinct in blast)+

lemma expand_king_left:
  "expand (Finite 200)
     \<lparr>blocks = [\<lparr>s_type = KING, s_x = 1, s_y = 0, s_width = 2, s_height = 2\<rparr>], path = []\<rparr>
     [(0, UP), (0, LEFT)]
     [\<lparr>blocks = [\<lparr>s_type = KING, s_x = 1, s_y = 0, s_width = 2, s_height = 2\<rparr>], path = []\<rparr>]
     {''01100110000000000000''}
   = Continue
     [\<lparr>blocks = [\<lparr>s_type = KING, s_x = 1, s_y = 0, s_width = 2, s_height = 2\<rparr>], path = []\<rparr>,
      \<lparr>blocks = [\<lparr>s_type = KING, s_x = 0, s_y = 0, s_width = 2, s_height = 2\<rparr>],
        path = [\<lparr>blockIndex = 0, direction = LEFT\<rparr>]\<rparr>]
     {''11001100000000000000'', ''01100110000000000000''}"
  by code_simp

theorem no_key_enqueued_twice_witness:
  "{''01100110000000000000''} \<subseteq> {''11001100000000000000'', ''01100110000000000000''} \<and>
   distinct (map keyOf (queue (search
      [\<lparr>b_id = ''king'', b_type = KING, b_x = 1, b_y = 2, b_width = 2, b_height = 2,
         b_label = Some ''KING''\<rparr>] None)))"
  using no_key_enqueued_twice [of
      "[\<lparr>b_id = ''king'', b_type = KING, b_x = 1, b_y = 2, b_width = 2, b_height = 2,
         b_label = Some ''KING''\<rparr>]" None
      "Finite 200"
     "\<lparr>blocks = [\<lparr>s_type = KING, s_x = 1, s_y = 0, s_width = 2, s_height = 2\<rparr>], path = []\<rparr>"
     "[(0, UP), (0, LEFT)]"
     "[\<lparr>blocks = [\<lparr>s_type = KING, s_x = 1, s_y = 0, s_width = 2, s_height = 2\<rparr>], path = []\<rparr>]"
     "{''01100110000000000000''}"
     "[\<lparr>blocks = [\<lparr>s_type = KING, s_x = 1, s_y = 0, s_width = 2, s_height = 2\<rparr>], path = []\<rparr>,
      \<lparr>blocks = [\<lparr>s_type = KING, s_x = 0, s_y = 0, s_width = 2, s_height = 2\<rparr>],
        path = [\<lparr>blockIndex = 0, direction = LEFT\<rparr>]\<rparr>]"
     "{''11001100000000000000'', ''01100110000000000000''}"]
    expand_king_left
  by blast

section \<open>Termination and the two bounds\<close>









section \<open>The canonical key\<close>

lemma length_setCell [simp]: "length (setCell g idx c) = length g"
  by (simp add: setCell_def)

lemma nth_setCell:
  "k < length g \<Longrightarrow> setCell g idx c ! k = (if idx = int k then c else g ! k)"
  by (auto simp: setCell_def nth_list_update)

lemma length_fold_setCell [simp]:
  "length (fold (\<lambda>a g. setCell g (f a) c) as g) = length g"
  by (induction as arbitrary: g) simp_all

lemma nth_fold_setCell:
  "k < length g \<Longrightarrow>
   fold (\<lambda>a g. setCell g (f a) c) as g ! k = (if \<exists>a \<in> set as. f a = int k then c else g ! k)"
proof (induction as arbitrary: g)
  case Nil
  then show ?case by simp
next
  case (Cons a as)
  have "fold (\<lambda>a g. setCell g (f a) c) (a # as) g ! k
      = fold (\<lambda>a g. setCell g (f a) c) as (setCell g (f a) c) ! k"
    by simp
  also have "\<dots> = (if \<exists>a \<in> set as. f a = int k then c else setCell g (f a) c ! k)"
    using Cons.prems by (intro Cons.IH) simp
  also have "\<dots> = (if \<exists>a' \<in> set (a # as). f a' = int k then c else g ! k)"
    using Cons.prems by (simp add: nth_setCell)
  finally show ?case .
qed

lemma length_paintRow [simp]: "length (paintRow b c dy g) = length g"
  by (simp add: paintRow_def)

lemma nth_paintRow:
  "k < length g \<Longrightarrow>
   paintRow b c dy g ! k =
     (if \<exists>dx \<in> set [0 .. s_width b - 1]. (s_y b + dy) * GRID_WIDTH + (s_x b + dx) = int k
      then c else g ! k)"
  unfolding paintRow_def by (rule nth_fold_setCell)

lemma length_fold_paintRow [simp]: "length (fold (paintRow b c) dys g) = length g"
  by (induction dys arbitrary: g) simp_all

lemma nth_fold_paintRow:
  "k < length g \<Longrightarrow>
   fold (paintRow b c) dys g ! k =
     (if \<exists>dy \<in> set dys. \<exists>dx \<in> set [0 .. s_width b - 1].
           (s_y b + dy) * GRID_WIDTH + (s_x b + dx) = int k
      then c else g ! k)"
proof (induction dys arbitrary: g)
  case Nil
  then show ?case by simp
next
  case (Cons dy dys)
  have "fold (paintRow b c) (dy # dys) g ! k = fold (paintRow b c) dys (paintRow b c dy g) ! k"
    by simp
  also have "\<dots> = (if \<exists>dy \<in> set dys. \<exists>dx \<in> set [0 .. s_width b - 1].
           (s_y b + dy) * GRID_WIDTH + (s_x b + dx) = int k
      then c else paintRow b c dy g ! k)"
    using Cons.prems by (intro Cons.IH) simp
  also have "\<dots> = (if \<exists>dy' \<in> set (dy # dys). \<exists>dx \<in> set [0 .. s_width b - 1].
           (s_y b + dy') * GRID_WIDTH + (s_x b + dx) = int k
      then c else g ! k)"
    using Cons.prems by (simp add: nth_paintRow)
  finally show ?case .
qed

lemma length_paintBlock [simp]: "length (paintBlock b g) = length g"
  by (simp add: paintBlock_def)

lemma nth_paintBlock:
  "k < length g \<Longrightarrow>
   paintBlock b g ! k = (if painted b k then typeCode (s_type b) else g ! k)"
  unfolding paintBlock_def painted_def by (rule nth_fold_paintRow)

lemma find_append_cases:
  "find P (xs @ ys) = (case find P xs of None \<Rightarrow> find P ys | Some x \<Rightarrow> Some x)"
  by (induction xs) simp_all

lemma length_fold_paintBlock [simp]: "length (fold paintBlock bs g) = length g"
  by (induction bs arbitrary: g) simp_all

lemma nth_fold_paintBlock:
  "k < length g \<Longrightarrow>
   fold paintBlock bs g ! k =
     (case find (\<lambda>b. painted b k) (rev bs) of
        None \<Rightarrow> g ! k
      | Some b \<Rightarrow> typeCode (s_type b))"
proof (induction bs arbitrary: g)
  case Nil
  then show ?case by simp
next
  case (Cons b bs)
  have "fold paintBlock (b # bs) g ! k = fold paintBlock bs (paintBlock b g) ! k"
    by simp
  also have "\<dots> = (case find (\<lambda>b. painted b k) (rev bs) of
        None \<Rightarrow> paintBlock b g ! k
      | Some b \<Rightarrow> typeCode (s_type b))"
    using Cons.prems by (intro Cons.IH) simp
  also have "\<dots> = (case find (\<lambda>b. painted b k) (rev (b # bs)) of
        None \<Rightarrow> g ! k
      | Some b \<Rightarrow> typeCode (s_type b))"
    using Cons.prems by (simp add: nth_paintBlock find_append_cases split: option.splits)
  finally show ?case .
qed

lemma length_paintAll [simp]: "length (paintAll bs) = 20"
  by (simp add: paintAll_def emptyGrid_def GRID_WIDTH_def GRID_HEIGHT_def)

text \<open>The last block of the list that paints a cell decides its code.\<close>

lemma nth_paintAll:
  assumes "k < 20"
  shows "paintAll bs ! k =
     (case find (\<lambda>b. painted b k) (rev bs) of None \<Rightarrow> 0 | Some b \<Rightarrow> typeCode (s_type b))"
proof -
  have "k < length emptyGrid" "emptyGrid ! k = 0"
    using assms by (simp_all add: emptyGrid_def GRID_WIDTH_def GRID_HEIGHT_def)
  with nth_fold_paintBlock [of k emptyGrid bs] show ?thesis
    unfolding paintAll_def by (simp split: option.splits)
qed

text \<open>Inside the grid, the array cell \<open>cy * GRID_WIDTH + cx\<close> is painted exactly by the
  blocks that cover \<open>(cx, cy)\<close> (no wrap-around into the next row).\<close>

lemma painted_iff_covers:
  assumes "inGrid b" and "0 \<le> cx" "cx < GRID_WIDTH" "0 \<le> cy"
  shows "painted b (nat (cy * GRID_WIDTH + cx)) \<longleftrightarrow> covers b cx cy"
proof
  assume "painted b (nat (cy * GRID_WIDTH + cx))"
  then obtain dy dx where d: "0 \<le> dy" "dy < s_height b" "0 \<le> dx" "dx < s_width b"
      and eq: "(s_y b + dy) * GRID_WIDTH + (s_x b + dx) = int (nat (cy * GRID_WIDTH + cx))"
    unfolding painted_def by auto
  from assms have "0 \<le> cy * GRID_WIDTH + cx"
    by (simp add: GRID_WIDTH_def)
  with eq have "(s_y b + dy) * 4 + (s_x b + dx) = cy * 4 + cx"
    by (simp add: GRID_WIDTH_def)
  moreover have "0 \<le> s_x b + dx" "s_x b + dx < 4"
    using assms(1) d by (simp_all add: inGrid_def GRID_WIDTH_def)
  moreover have "0 \<le> cx" "cx < 4"
    using assms by (simp_all add: GRID_WIDTH_def)
  ultimately have "s_x b + dx = cx" "s_y b + dy = cy"
    by presburger+
  with d show "covers b cx cy"
    by (auto simp: covers_def)
next
  assume c: "covers b cx cy"
  from assms have nn: "0 \<le> cy * GRID_WIDTH + cx"
    by (simp add: GRID_WIDTH_def)
  have "cy - s_y b \<in> set [0 .. s_height b - 1]" "cx - s_x b \<in> set [0 .. s_width b - 1]"
    using c by (auto simp: covers_def)
  moreover have "(s_y b + (cy - s_y b)) * GRID_WIDTH + (s_x b + (cx - s_x b))
      = int (nat (cy * GRID_WIDTH + cx))"
    using nn by simp
  ultimately show "painted b (nat (cy * GRID_WIDTH + cx))"
    unfolding painted_def by blast
qed

lemma find_Some_member: "find P xs = Some x \<Longrightarrow> x \<in> set xs \<and> P x"
  by (induction xs) (auto split: if_splits)

lemma covering_pieces_overlap:
  "covers a cx cy \<Longrightarrow> covers b cx cy \<Longrightarrow> overlap a b"
  by (auto simp: covers_def overlap_def)

lemma noOverlap_unique_cover:
  assumes "noOverlap bs" and "a \<in> set bs" and "b \<in> set bs"
    and "covers a cx cy" and "covers b cx cy"
  shows "a = b"
proof -
  from assms(2,3) obtain i j where ij: "i < length bs" "a = bs ! i" "j < length bs" "b = bs ! j"
    unfolding in_set_conv_nth by blast
  show ?thesis
  proof (cases "i = j")
    case True
    with ij show ?thesis by simp
  next
    case False
    with assms(1) ij have "\<not> overlap a b"
      by (simp add: noOverlap_def)
    with covering_pieces_overlap [OF assms(4,5)] show ?thesis by simp
  qed
qed

lemma allInGrid_set: "allInGrid bs \<longleftrightarrow> (\<forall>b \<in> set bs. inGrid b)"
  by (auto simp: allInGrid_def all_set_conv_all_nth)

text \<open>On a valid board the code of a cell is the code of the one piece that covers it.\<close>

lemma cell_code:
  assumes "validBoard bs" and "0 \<le> cx" "cx < GRID_WIDTH" "0 \<le> cy" "cy < GRID_HEIGHT"
  shows "(kindsAt bs cx cy = {} \<and> paintAll bs ! nat (cy * GRID_WIDTH + cx) = 0) \<or>
         (\<exists>b \<in> set bs. covers b cx cy \<and> kindsAt bs cx cy = {s_type b} \<and>
            paintAll bs ! nat (cy * GRID_WIDTH + cx) = typeCode (s_type b))"
proof -
  let ?k = "nat (cy * GRID_WIDTH + cx)"
  have k: "?k < 20"
    using assms(2-5) by (simp add: GRID_WIDTH_def GRID_HEIGHT_def)
  have pc: "painted b ?k \<longleftrightarrow> covers b cx cy" if "b \<in> set bs" for b
    using that assms painted_iff_covers [of b cx cy]
    by (simp add: validBoard_def allInGrid_set)
  show ?thesis
  proof (cases "find (\<lambda>b. painted b ?k) (rev bs)")
    case None
    then have "\<forall>b \<in> set bs. \<not> covers b cx cy"
      using pc by (auto simp: find_None_iff)
    then have "kindsAt bs cx cy = {}"
      by (auto simp: kindsAt_def)
    moreover have "paintAll bs ! ?k = 0"
      using None by (simp add: nth_paintAll [OF k])
    ultimately show ?thesis by simp
  next
    case (Some b)
    then have b: "b \<in> set bs" "painted b ?k"
      using find_Some_member [of "\<lambda>b. painted b ?k" "rev bs" b] by simp_all
    then have cb: "covers b cx cy"
      using pc by simp
    have uniq: "b' = b" if "b' \<in> set bs" "covers b' cx cy" for b'
      using noOverlap_unique_cover [of bs b' b cx cy] that b(1) cb assms(1)
      by (simp add: validBoard_def)
    have "{b' \<in> set bs. covers b' cx cy} = {b}"
    proof (rule set_eqI)
      fix b'
      show "b' \<in> {b' \<in> set bs. covers b' cx cy} \<longleftrightarrow> b' \<in> {b}"
        using uniq [of b'] b(1) cb by blast
    qed
    then have "kindsAt bs cx cy = {s_type b}"
      by (simp add: kindsAt_def)
    moreover have "paintAll bs ! ?k = typeCode (s_type b)"
      using Some by (simp add: nth_paintAll [OF k])
    ultimately show ?thesis using b(1) cb by blast
  qed
qed

lemma typeCode_inj: "typeCode s = typeCode t \<Longrightarrow> s = t"
  by (cases s; cases t) (simp_all add: typeCode_def)

lemma typeCode_pos: "0 < typeCode t" "typeCode t \<le> 4"
  by (cases t; simp add: typeCode_def)+

lemma cell_of_index:
  assumes "k < 20"
  shows "k = nat (int (k div 4) * GRID_WIDTH + int (k mod 4))"
    "0 \<le> int (k mod 4)" "int (k mod 4) < GRID_WIDTH"
    "0 \<le> int (k div 4)" "int (k div 4) < GRID_HEIGHT"
  using assms by (simp_all add: GRID_WIDTH_def GRID_HEIGHT_def nat_add_distrib nat_mult_distrib)

lemma sameOccupancy_paintAll:
  assumes "validBoard A" and "validBoard B" and "sameOccupancy A B"
  shows "paintAll A = paintAll B"
proof (rule nth_equalityI)
  show "length (paintAll A) = length (paintAll B)" by simp
next
  fix k assume "k < length (paintAll A)"
  then have k: "k < 20" by simp
  let ?cx = "int (k mod 4)" and ?cy = "int (k div 4)"
  note c = cell_of_index [OF k]
  have same: "kindsAt A ?cx ?cy = kindsAt B ?cx ?cy"
    using assms(3) c(2-5) by (simp add: sameOccupancy_def)
  from cell_code [OF assms(1) c(2-5)] cell_code [OF assms(2) c(2-5)] same
  have "paintAll A ! nat (?cy * GRID_WIDTH + ?cx) = paintAll B ! nat (?cy * GRID_WIDTH + ?cx)"
    by auto
  with c(1) show "paintAll A ! k = paintAll B ! k" by simp
qed

lemma sameOccupancy_encodeState:
  assumes "validBoard A" and "validBoard B" and "sameOccupancy A B"
  shows "encodeState A = encodeState B"
  using sameOccupancy_paintAll [OF assms] by (simp add: encodeState_def)

lemma swapPositions_same_kind:
  assumes "s_type (bs ! i) = s_type (bs ! j)" and "s_width (bs ! i) = s_width (bs ! j)"
    and "s_height (bs ! i) = s_height (bs ! j)"
  shows "swapPositions i j bs = bs[i := bs ! j, j := bs ! i]"
proof -
  have "(bs ! i)\<lparr>s_x := s_x (bs ! j), s_y := s_y (bs ! j)\<rparr> = bs ! j"
    using assms by (intro SolverBlock.equality) simp_all
  moreover have "(bs ! j)\<lparr>s_x := s_x (bs ! i), s_y := s_y (bs ! i)\<rparr> = bs ! i"
    using assms by (intro SolverBlock.equality) simp_all
  ultimately show ?thesis by (simp add: swapPositions_def)
qed

lemma validBoard_swap:
  assumes "validBoard bs" and "i < length bs" and "j < length bs"
  shows "validBoard (bs[i := bs ! j, j := bs ! i])"
proof -
  let ?bs' = "bs[i := bs ! j, j := bs ! i]"
  let ?p = "\<lambda>a. if a = j then i else if a = i then j else a"
  have nth: "?bs' ! a = bs ! ?p a" if "a < length bs" for a
    using that assms(2,3) by (simp add: nth_list_update)
  have plt: "?p a < length bs" if "a < length bs" for a
    using that assms(2,3) by simp
  have pinj: "?p a \<noteq> ?p b" if "a \<noteq> b" for a b
    using that by (simp split: if_splits)
  have "allInGrid ?bs'"
    using assms by (simp add: allInGrid_set validBoard_def)
  moreover have "noOverlap ?bs'"
    unfolding noOverlap_def
  proof (intro ballI impI)
    fix a b assume "a \<in> {0 ..< length ?bs'}" "b \<in> {0 ..< length ?bs'}" "a \<noteq> b"
    then have ab: "a < length bs" "b < length bs" "?p a \<noteq> ?p b"
      using pinj [of a b] by simp_all
    have "\<not> overlap (bs ! ?p a) (bs ! ?p b)"
      using assms(1) plt [OF ab(1)] plt [OF ab(2)] ab(3)
      unfolding validBoard_def noOverlap_def by simp
    then show "\<not> overlap (?bs' ! a) (?bs' ! b)"
      using nth [OF ab(1)] nth [OF ab(2)] by simp
  qed
  ultimately show ?thesis by (simp add: validBoard_def)
qed

lemma sameOccupancy_same_set: "set A = set B \<Longrightarrow> sameOccupancy A B"
  by (simp add: sameOccupancy_def kindsAt_def)

text \<open>
  C4. Two valid boards with the same occupancy by piece kind, cell by cell, have the same
  canonical key; in particular a valid board and the board in which two pieces of the same
  kind (and size) have exchanged their positions: which piece of a kind sits on a cell
  does not enter the key.
\<close>

theorem encodeState_same_occupancy:
  "(validBoard A \<and> validBoard B \<and> sameOccupancy A B \<longrightarrow> encodeState A = encodeState B) \<and>
   (validBoard bs \<and> i < length bs \<and> j < length bs \<and> s_type (bs ! i) = s_type (bs ! j) \<and>
    s_width (bs ! i) = s_width (bs ! j) \<and> s_height (bs ! i) = s_height (bs ! j)
    \<longrightarrow> validBoard (swapPositions i j bs) \<and> sameOccupancy (swapPositions i j bs) bs \<and>
        encodeState (swapPositions i j bs) = encodeState bs)"
proof (intro conjI impI)
  assume "validBoard A \<and> validBoard B \<and> sameOccupancy A B"
  then show "encodeState A = encodeState B"
    using sameOccupancy_encodeState by blast
next
  assume a: "validBoard bs \<and> i < length bs \<and> j < length bs \<and> s_type (bs ! i) = s_type (bs ! j) \<and>
    s_width (bs ! i) = s_width (bs ! j) \<and> s_height (bs ! i) = s_height (bs ! j)"
  then have sw: "swapPositions i j bs = bs[i := bs ! j, j := bs ! i]"
    by (simp add: swapPositions_same_kind)
  show v: "validBoard (swapPositions i j bs)"
    using a unfolding sw by (simp add: validBoard_swap)
  show s: "sameOccupancy (swapPositions i j bs) bs"
    using a unfolding sw by (intro sameOccupancy_same_set) simp
  show "encodeState (swapPositions i j bs) = encodeState bs"
    using sameOccupancy_encodeState [OF v _ s] a by simp
qed

lemma two_guards_valid:
  "validBoard
     [\<lparr>s_type = VERTICAL, s_x = 0, s_y = 0, s_width = 1, s_height = 2\<rparr>,
      \<lparr>s_type = VERTICAL, s_x = 3, s_y = 2, s_width = 1, s_height = 2\<rparr>]"
  "validBoard
     [\<lparr>s_type = VERTICAL, s_x = 3, s_y = 2, s_width = 1, s_height = 2\<rparr>,
      \<lparr>s_type = VERTICAL, s_x = 0, s_y = 0, s_width = 1, s_height = 2\<rparr>]"
  "sameOccupancy
     [\<lparr>s_type = VERTICAL, s_x = 0, s_y = 0, s_width = 1, s_height = 2\<rparr>,
      \<lparr>s_type = VERTICAL, s_x = 3, s_y = 2, s_width = 1, s_height = 2\<rparr>]
     [\<lparr>s_type = VERTICAL, s_x = 3, s_y = 2, s_width = 1, s_height = 2\<rparr>,
      \<lparr>s_type = VERTICAL, s_x = 0, s_y = 0, s_width = 1, s_height = 2\<rparr>]"
  by (code_simp, code_simp, code_simp)

theorem encodeState_same_occupancy_witness:
  "encodeState
     [\<lparr>s_type = VERTICAL, s_x = 0, s_y = 0, s_width = 1, s_height = 2\<rparr>,
      \<lparr>s_type = VERTICAL, s_x = 3, s_y = 2, s_width = 1, s_height = 2\<rparr>]
   = encodeState
     [\<lparr>s_type = VERTICAL, s_x = 3, s_y = 2, s_width = 1, s_height = 2\<rparr>,
      \<lparr>s_type = VERTICAL, s_x = 0, s_y = 0, s_width = 1, s_height = 2\<rparr>]
   \<and> encodeState (swapPositions 0 1
     [\<lparr>s_type = VERTICAL, s_x = 0, s_y = 0, s_width = 1, s_height = 2\<rparr>,
      \<lparr>s_type = VERTICAL, s_x = 3, s_y = 2, s_width = 1, s_height = 2\<rparr>])
   = encodeState
     [\<lparr>s_type = VERTICAL, s_x = 0, s_y = 0, s_width = 1, s_height = 2\<rparr>,
      \<lparr>s_type = VERTICAL, s_x = 3, s_y = 2, s_width = 1, s_height = 2\<rparr>]"
  using encodeState_same_occupancy [of
     "[\<lparr>s_type = VERTICAL, s_x = 0, s_y = 0, s_width = 1, s_height = 2\<rparr>,
       \<lparr>s_type = VERTICAL, s_x = 3, s_y = 2, s_width = 1, s_height = 2\<rparr>]"
     "[\<lparr>s_type = VERTICAL, s_x = 3, s_y = 2, s_width = 1, s_height = 2\<rparr>,
       \<lparr>s_type = VERTICAL, s_x = 0, s_y = 0, s_width = 1, s_height = 2\<rparr>]"
     "[\<lparr>s_type = VERTICAL, s_x = 0, s_y = 0, s_width = 1, s_height = 2\<rparr>,
       \<lparr>s_type = VERTICAL, s_x = 3, s_y = 2, s_width = 1, s_height = 2\<rparr>]" 0 1]
    two_guards_valid
  by simp

section \<open>The caller's store is left as it was\<close>

lemma preserved_refl: "preserved h h"
  by (simp add: preserved_def)

lemma preserved_lengths:
  assumes "preserved h h'"
  shows "length (objs h) \<le> length (objs h')" "length (arrs h) \<le> length (arrs h')"
proof -
  from assms have "length (take (length (objs h)) (objs h')) = length (objs h)"
    "length (take (length (arrs h)) (arrs h')) = length (arrs h)"
    by (simp_all add: preserved_def)
  then show "length (objs h) \<le> length (objs h')" "length (arrs h) \<le> length (arrs h')"
    by simp_all
qed

lemma preserved_nth:
  assumes "preserved h h'"
  shows "r < length (objs h) \<Longrightarrow> objs h' ! r = objs h ! r"
    and "a < length (arrs h) \<Longrightarrow> arrs h' ! a = arrs h ! a"
proof -
  assume "r < length (objs h)"
  then have "take (length (objs h)) (objs h') ! r = objs h' ! r" by simp
  with assms show "objs h' ! r = objs h ! r" by (simp add: preserved_def)
next
  assume "a < length (arrs h)"
  then have "take (length (arrs h)) (arrs h') ! a = arrs h' ! a" by simp
  with assms show "arrs h' ! a = arrs h ! a" by (simp add: preserved_def)
qed

lemma preserved_trans:
  assumes "preserved h1 h2" and "preserved h2 h3"
  shows "preserved h1 h3"
proof -
  note l12 = preserved_lengths [OF assms(1)] and l23 = preserved_lengths [OF assms(2)]
  have "take (length (objs h1)) (objs h3) = objs h1"
  proof (rule nth_equalityI)
    show "length (take (length (objs h1)) (objs h3)) = length (objs h1)"
      using l12 l23 by simp
  next
    fix r assume "r < length (take (length (objs h1)) (objs h3))"
    then have r: "r < length (objs h1)" by simp
    with l12 have "objs h3 ! r = objs h2 ! r"
      by (intro preserved_nth(1) [OF assms(2)]) simp
    with r show "take (length (objs h1)) (objs h3) ! r = objs h1 ! r"
      by (simp add: preserved_nth(1) [OF assms(1)])
  qed
  moreover have "take (length (arrs h1)) (arrs h3) = arrs h1"
  proof (rule nth_equalityI)
    show "length (take (length (arrs h1)) (arrs h3)) = length (arrs h1)"
      using l12 l23 by simp
  next
    fix a assume "a < length (take (length (arrs h1)) (arrs h3))"
    then have a: "a < length (arrs h1)" by simp
    with l12 have "arrs h3 ! a = arrs h2 ! a"
      by (intro preserved_nth(2) [OF assms(2)]) simp
    with a show "take (length (arrs h1)) (arrs h3) ! a = arrs h1 ! a"
      by (simp add: preserved_nth(2) [OF assms(1)])
  qed
  ultimately show ?thesis by (simp add: preserved_def)
qed

lemma liveArr_preserved:
  assumes "liveArr h a" and "preserved h h'"
  shows "liveArr h' a" and "arrs h' ! a = arrs h ! a" and "viewArr h' a = viewArr h a"
    and "readBlocks h' a = readBlocks h a"
proof -
  from assms(1) have a: "a < length (arrs h)" and rs: "\<forall>r \<in> set (arrs h ! a). r < length (objs h)"
    by (simp_all add: liveArr_def list_all_iff)
  show eq: "arrs h' ! a = arrs h ! a"
    by (rule preserved_nth(2) [OF assms(2) a])
  show "liveArr h' a"
    using a rs eq preserved_lengths [OF assms(2)]
    by (auto simp: liveArr_def list_all_iff)
  show "viewArr h' a = viewArr h a"
    using rs eq preserved_nth(1) [OF assms(2)] by (simp add: viewArr_def)
  show "readBlocks h' a = readBlocks h a"
    using rs eq preserved_nth(1) [OF assms(2)] by (simp add: readBlocks_def)
qed

lemma mapObjs_closed:
  assumes "\<forall>r \<in> set rs. r < length (objs h)"
  shows "mapObjs f h rs =
     ([length (objs h) ..< length (objs h) + length rs],
      h\<lparr>objs := objs h @ map (\<lambda>r. f (objs h ! r)) rs\<rparr>)"
  using assms
proof (induction rs arbitrary: h)
  case Nil
  then show ?case by simp
next
  case (Cons r rs)
  let ?h1 = "h\<lparr>objs := objs h @ [f (objs h ! r)]\<rparr>"
  have in1: "\<forall>r' \<in> set rs. r' < length (objs ?h1)"
    using Cons.prems by auto
  have same: "map (\<lambda>r'. f (objs ?h1 ! r')) rs = map (\<lambda>r'. f (objs h ! r')) rs"
    using Cons.prems by (auto simp: nth_append)
  have "mapObjs f ?h1 rs =
     ([length (objs ?h1) ..< length (objs ?h1) + length rs],
      ?h1\<lparr>objs := objs ?h1 @ map (\<lambda>r'. f (objs ?h1 ! r')) rs\<rparr>)"
    by (rule Cons.IH [OF in1])
  then have rec: "mapObjs f ?h1 rs =
     ([Suc (length (objs h)) ..< Suc (length (objs h)) + length rs],
      h\<lparr>objs := objs h @ f (objs h ! r) # map (\<lambda>r'. f (objs h ! r')) rs\<rparr>)"
    unfolding same by simp
  have up: "[length (objs h) ..< length (objs h) + length (r # rs)]
      = length (objs h) # [Suc (length (objs h)) ..< Suc (length (objs h)) + length rs]"
    by (simp add: upt_conv_Cons del: upt_Suc)
  have "mapObjs f h (r # rs)
      = (length (objs h) # fst (mapObjs f ?h1 rs), snd (mapObjs f ?h1 rs))"
    by (simp add: allocObj_def split: prod.splits)
  also have "\<dots> = (length (objs h) # [Suc (length (objs h)) ..< Suc (length (objs h)) + length rs],
      h\<lparr>objs := objs h @ f (objs h ! r) # map (\<lambda>r'. f (objs h ! r')) rs\<rparr>)"
    unfolding rec by (simp del: upt_Suc)
  finally show ?case
    unfolding up by simp
qed

lemma mapArr_closed:
  assumes "liveArr h a"
  shows "mapArr f h a =
     (length (arrs h),
      h\<lparr>objs := objs h @ map (\<lambda>r. f (objs h ! r)) (arrs h ! a),
        arrs := arrs h @ [[length (objs h) ..< length (objs h) + length (arrs h ! a)]]\<rparr>)"
proof -
  from assms have "\<forall>r \<in> set (arrs h ! a). r < length (objs h)"
    by (simp add: liveArr_def list_all_iff)
  from mapObjs_closed [OF this, of f] show ?thesis
    by (simp add: mapArr_def allocArr_def)
qed

lemma solverView_toSolverObj: "solverView (toSolverObj ob) = solverView ob"
  by (simp add: solverView_def toSolverObj_def)

lemma mapArr_copy:
  assumes "liveArr h a" and "\<And>ob. solverView (f ob) = solverView ob"
    and "mapArr f h a = (nb, h1)"
  shows "preserved h h1" and "liveArr h1 nb" and "viewArr h1 nb = viewArr h a"
    and "nb = length (arrs h)" and "length (arrs h1) = Suc (length (arrs h))"
    and "arrs h1 ! nb = [length (objs h) ..< length (objs h) + length (arrs h ! a)]"
    and "length (objs h1) = length (objs h) + length (arrs h ! a)"
proof -
  from mapArr_closed [OF assms(1), of f] assms(3)
  have nb: "nb = length (arrs h)"
    and h1: "h1 = h\<lparr>objs := objs h @ map (\<lambda>r. f (objs h ! r)) (arrs h ! a),
        arrs := arrs h @ [[length (objs h) ..< length (objs h) + length (arrs h ! a)]]\<rparr>"
    by simp_all
  show "nb = length (arrs h)" by (rule nb)
  show "preserved h h1" by (simp add: h1 preserved_def)
  show "liveArr h1 nb" by (simp add: h1 nb liveArr_def list_all_iff)
  show "length (arrs h1) = Suc (length (arrs h))" by (simp add: h1)
  show "arrs h1 ! nb = [length (objs h) ..< length (objs h) + length (arrs h ! a)]"
    by (simp add: h1 nb)
  show "length (objs h1) = length (objs h) + length (arrs h ! a)" by (simp add: h1)
  show "viewArr h1 nb = viewArr h a"
    by (rule nth_equalityI) (simp_all add: h1 nb viewArr_def nth_append assms(2))
qed

lemma solverView_moved:
  "solverView
     (if d = UP then ob\<lparr>o_y := o_y ob - 1\<rparr>
      else if d = DOWN then ob\<lparr>o_y := o_y ob + 1\<rparr>
      else if d = LEFT then ob\<lparr>o_x := o_x ob - 1\<rparr>
      else ob\<lparr>o_x := o_x ob + 1\<rparr>) = translate d (solverView ob)"
  by (cases d) (simp_all add: solverView_def)

text \<open>
  Cloning the blocks of a node and moving the clone of block \<open>i\<close>: the write goes to an
  object allocated by the clone, so everything that existed before is unchanged, and the
  new array reads as the old one with block \<open>i\<close> moved.
\<close>

lemma clone_and_move:
  assumes "liveArr h a" and "i < length (arrs h ! a)"
    and "mapArr spread h a = (nb, h1)"
  shows "preserved h (writeMove h1 nb i d)"
    and "liveArr (writeMove h1 nb i d) nb"
    and "viewArr (writeMove h1 nb i d) nb = applyMove i d (viewArr h a)"
proof -
  let ?n = "length (objs h)"
  let ?h2 = "writeMove h1 nb i d"
  have sp: "\<And>ob. solverView (spread ob) = solverView ob"
    by (simp add: spread_def)
  note c = mapArr_copy [OF assms(1) sp assms(3)]
  have r: "arrs h1 ! nb ! i = ?n + i"
    using assms(2) by (simp add: c(6))
  define moved where "moved =
     (if d = UP then (objs h1 ! (?n + i))\<lparr>o_y := o_y (objs h1 ! (?n + i)) - 1\<rparr>
      else if d = DOWN then (objs h1 ! (?n + i))\<lparr>o_y := o_y (objs h1 ! (?n + i)) + 1\<rparr>
      else if d = LEFT then (objs h1 ! (?n + i))\<lparr>o_x := o_x (objs h1 ! (?n + i)) - 1\<rparr>
      else (objs h1 ! (?n + i))\<lparr>o_x := o_x (objs h1 ! (?n + i)) + 1\<rparr>)"
  have h2: "?h2 = h1\<lparr>objs := (objs h1)[?n + i := moved]\<rparr>"
    by (simp add: writeMove_def Let_def r moved_def)
  have mv: "solverView moved = translate d (solverView (objs h1 ! (?n + i)))"
    unfolding moved_def by (rule solverView_moved)
  have "take ?n (objs ?h2) = take ?n (objs h1)"
    by (simp add: h2)
  with c(1) show "preserved h ?h2"
    by (simp add: preserved_def h2)
  show "liveArr ?h2 nb"
    using c(2) by (simp add: liveArr_def h2)
  have v1: "viewArr h1 nb = viewArr h a" by (rule c(3))
  have len: "length (viewArr h a) = length (arrs h ! a)"
    by (simp add: viewArr_def)
  show "viewArr ?h2 nb = applyMove i d (viewArr h a)"
  proof (rule nth_equalityI)
    show "length (viewArr ?h2 nb) = length (applyMove i d (viewArr h a))"
      by (simp add: viewArr_def h2 c(6) length_applyMove)
  next
    fix k assume "k < length (viewArr ?h2 nb)"
    then have k: "k < length (arrs h ! a)"
      by (simp add: viewArr_def h2 c(6))
    have old: "viewArr h1 nb ! k = solverView (objs h1 ! (?n + k))"
      using k by (simp add: viewArr_def c(6))
    have "viewArr ?h2 nb ! k = solverView ((objs h1)[?n + i := moved] ! (?n + k))"
      using k by (simp add: viewArr_def h2 c(6))
    also have "\<dots> = (if k = i then translate d (viewArr h a ! i) else viewArr h a ! k)"
    proof (cases "k = i")
      case True
      have "viewArr h1 nb ! i = solverView (objs h1 ! (?n + i))"
        using assms(2) by (simp add: viewArr_def c(6))
      with True assms(2) c(7) mv v1 show ?thesis by simp
    next
      case False
      with old v1 show ?thesis by simp
    qed
    also have "\<dots> = applyMove i d (viewArr h a) ! k"
      using k len by (simp add: applyMove_nth)
    finally show "viewArr ?h2 nb ! k = applyMove i d (viewArr h a) ! k" .
  qed
qed

lemma refines_preserved: "refines h n st \<Longrightarrow> preserved h h' \<Longrightarrow> refines h' n st"
  using liveArr_preserved(1,3) [of h "h_blocks n" h'] by (simp add: refines_def)

lemma list_all2_refines_preserved:
  "list_all2 (refines h) hq q \<Longrightarrow> preserved h h' \<Longrightarrow> list_all2 (refines h') hq q"
  by (erule list_all2_mono) (rule refines_preserved)

lemma simulates_earlier:
  assumes "preserved h h2" and "simulates h2 he e"
  shows "simulates h he e"
  using assms preserved_trans [OF assms(1)]
  by (auto simp: simulates_def split: expansion.splits hexpansion.splits)

lemma expandH_simulates:
  assumes "refines h hcur cur" and "list_all2 (refines h) hq q"
  shows "simulates h (expandH maxDepth hcur cs hq v h) (expand maxDepth cur cs q v)"
  using assms
proof (induction cs arbitrary: h hq q v)
  case Nil
  then show ?case by (simp add: simulates_def preserved_refl)
next
  case (Cons c cs)
  obtain i d where c: "c = (i, d)" by (cases c)
  from Cons.prems(1) have view: "viewArr h (h_blocks hcur) = blocks cur"
    and live: "liveArr h (h_blocks hcur)" and pth: "h_path hcur = path cur"
    by (simp_all add: refines_def)
  show ?case
  proof (cases "canMove i d (blocks cur)")
    case (Inl e)
    then show ?thesis by (simp add: c view simulates_def)
  next
    case (Inr ok)
    show ?thesis
    proof (cases ok)
      case False
      with Inr Cons.IH [OF Cons.prems] show ?thesis by (simp add: c view)
    next
      case True
      with Inr have can: "canMove i d (blocks cur) = Inr True" by simp
      have "length (blocks cur) = length (arrs h ! h_blocks hcur)"
        using view [symmetric] by (simp add: viewArr_def)
      with can have i: "i < length (arrs h ! h_blocks hcur)"
        by (simp add: canMove_True_iff)
      obtain nb h1 where m: "mapArr spread h (h_blocks hcur) = (nb, h1)"
        by (cases "mapArr spread h (h_blocks hcur)")
      let ?h2 = "writeMove h1 nb i d"
      let ?hn = "\<lparr>h_blocks = nb, h_path = h_path hcur @ [\<lparr>blockIndex = i, direction = d\<rparr>]\<rparr>"
      note cm = clone_and_move [OF live i m, of d]
      have nbv: "viewArr ?h2 nb = applyMove i d (blocks cur)"
        using cm(3) view by simp
      have rn: "refines ?h2 ?hn (child cur i d)"
        using cm(2) nbv pth by (simp add: refines_def child_simps)
      have rc: "refines ?h2 hcur cur"
        by (rule refines_preserved [OF Cons.prems(1) cm(1)])
      have rq: "list_all2 (refines ?h2) hq q"
        by (rule list_all2_refines_preserved [OF Cons.prems(2) cm(1)])
      have skip: "simulates h (expandH maxDepth hcur cs hq v ?h2) (expand maxDepth cur cs q v)"
        by (rule simulates_earlier [OF cm(1) Cons.IH [OF rc rq]])
      have push: "simulates h
          (expandH maxDepth hcur cs (hq @ [?hn]) (insert (keyOf (child cur i d)) v) ?h2)
          (expand maxDepth cur cs (q @ [child cur i d]) (insert (keyOf (child cur i d)) v))"
        by (rule simulates_earlier [OF cm(1) Cons.IH [OF rc]])
          (simp add: list_all2_appendI rq rn)
      have found: "simulates h (HReturn ?hn hq v ?h2) (Return (child cur i d) q v)"
        using cm(1) rn rq by (simp add: simulates_def)
      have H: "expandH maxDepth hcur ((i, d) # cs) hq v h =
          (if keyOf (child cur i d) \<notin> v then
             if isSolved (blocks (child cur i d)) then HReturn ?hn hq v ?h2
             else if lengthBelow (length (path cur) + 1) maxDepth
             then expandH maxDepth hcur cs (hq @ [?hn]) (insert (keyOf (child cur i d)) v) ?h2
             else expandH maxDepth hcur cs hq v ?h2
           else expandH maxDepth hcur cs hq v ?h2)"
        using can by (simp add: view m Let_def nbv keyOf_def child_simps pth)
      show ?thesis
        unfolding c H expand_Cons using can skip push found by simp
    qed
  qed
qed
declare bfsH.simps [simp del]

lemma findSolution_resultOf: "findSolution bs md = resultOf (outcome (search bs md))"
  by (simp add: findSolution_def resultOf_def)

lemma bfsH_simulates:
  assumes "list_all2 (refines h) hq q"
  shows "preserved h (snd (bfsH maxDepth hq v k h)) \<and>
         fst (bfsH maxDepth hq v k h) = resultOf (outcome (bfs maxDepth q v k))"
  using assms
proof (induction maxDepth q v k arbitrary: hq h rule: bfs.induct)
  case (1 maxDepth q v k)
  from "1.prems" have len: "length hq = length q"
    by (rule list_all2_lengthD)
  show ?case
  proof (cases "k < length q \<and> \<not> int k > MAX_ITERATIONS")
    case False
    then have "bfsH maxDepth hq v k h = (Inr None, h)"
      "outcome (bfs maxDepth q v k) = NoSolution"
      using len by (auto simp: bfsH.simps bfs.simps)
    then show ?thesis by (simp add: preserved_refl resultOf_def)
  next
    case True
    then have k: "k < length q" and le: "\<not> int k > MAX_ITERATIONS" by simp_all
    have rc: "refines h (hq ! k) (q ! k)"
      using "1.prems" k by (simp add: list_all2_nthD2)
    then have "length (arrs h ! h_blocks (hq ! k)) = length (blocks (q ! k))"
      by (auto simp: refines_def viewArr_def dest: arg_cong [where f = length])
    then have cands: "candidatesH h (hq ! k) = candidates (q ! k)"
      by (simp add: candidatesH_def candidates_def)
    let ?e = "expand maxDepth (q ! k) (candidates (q ! k)) q v"
    let ?he = "expandH maxDepth (hq ! k) (candidates (q ! k)) hq v h"
    have sim: "simulates h ?he ?e"
      by (rule expandH_simulates [OF rc "1.prems"])
    have H: "bfsH maxDepth hq v k h =
        (case ?he of
            HReturn goal q' v' h' \<Rightarrow> (Inr (Some (h_path goal)), h')
          | HThrow e \<Rightarrow> (Inl e, h)
          | HContinue q' v' h' \<Rightarrow> bfsH maxDepth q' v' (k + 1) h')"
      using k le len by (subst bfsH.simps) (simp add: cands Let_def)
    have B: "bfs maxDepth q v k =
        (case ?e of
            Return goal q' v' \<Rightarrow> \<lparr>outcome = Solved goal, queue = q', visited = v', head = k + 1\<rparr>
          | Throw e \<Rightarrow> \<lparr>outcome = Raised e, queue = q, visited = v, head = k + 1\<rparr>
          | Continue q' v' \<Rightarrow> bfs maxDepth q' v' (k + 1))"
      using k le by (subst bfs.simps) (simp add: Let_def)
    show ?thesis
    proof (cases ?e)
      case (Return g q' v')
      with sim obtain hg hq' h' where he: "?he = HReturn hg hq' v' h'"
          and p: "preserved h h'" and rg: "refines h' hg g"
        by (auto simp: simulates_def split: hexpansion.splits)
      from rg have "h_path hg = path g" by (simp add: refines_def)
      with p show ?thesis
        unfolding H B he Return by (simp add: resultOf_def)
    next
      case (Throw e)
      with sim have he: "?he = HThrow e"
        by (simp add: simulates_def)
      show ?thesis
        unfolding H B he Throw by (simp add: resultOf_def preserved_refl)
    next
      case (Continue q' v')
      with sim obtain hq' h' where he: "?he = HContinue hq' v' h'"
          and p: "preserved h h'" and rq: "list_all2 (refines h') hq' q'"
        by (auto simp: simulates_def split: hexpansion.splits)
      from "1.IH" [OF k le refl Continue rq]
      have "preserved h' (snd (bfsH maxDepth hq' v' (k + 1) h'))"
        and "fst (bfsH maxDepth hq' v' (k + 1) h') = resultOf (outcome (bfs maxDepth q' v' (k + 1)))"
        by simp_all
      with p show ?thesis
        unfolding H B he Continue by (auto intro: preserved_trans)
    qed
  qed
qed

lemma toSolverBlock_blockOf: "toSolverBlock (blockOf ob) = solverView ob"
  by (simp add: toSolverBlock_def blockOf_def solverView_def)

lemma findSolutionH_simulates:
  assumes "liveArr h a"
  shows "preserved h (snd (findSolutionH h a md)) \<and>
         fst (findSolutionH h a md) = findSolution (readBlocks h a) md"
proof -
  obtain sb h1 where m: "mapArr toSolverObj h a = (sb, h1)"
    by (cases "mapArr toSolverObj h a")
  note c = mapArr_copy [OF assms solverView_toSolverObj m]
  have start: "viewArr h1 sb = map toSolverBlock (readBlocks h a)"
    unfolding c(3) by (simp add: viewArr_def readBlocks_def toSolverBlock_blockOf)
  show ?thesis
  proof (cases "isSolved (map toSolverBlock (readBlocks h a))")
    case True
    then have "findSolutionH h a md = (Inr (Some []), h1)"
      by (simp add: findSolutionH_def m start)
    with True c(1) show ?thesis
      by (simp add: findSolution_resultOf search_solved resultOf_def root_simps)
  next
    case False
    let ?hn = "\<lparr>h_blocks = sb, h_path = []\<rparr>"
    have "refines h1 ?hn (root (readBlocks h a))"
      using c(2) start by (simp add: refines_def root_simps)
    then have "list_all2 (refines h1) [?hn] [root (readBlocks h a)]"
      by simp
    from bfsH_simulates [OF this, of "maxDepthOf md" "{keyOf (root (readBlocks h a))}" 0]
    have "preserved h1 (snd (bfsH (maxDepthOf md) [?hn] {keyOf (root (readBlocks h a))} 0 h1))"
      and "fst (bfsH (maxDepthOf md) [?hn] {keyOf (root (readBlocks h a))} 0 h1)
        = findSolution (readBlocks h a) md"
      using False by (simp_all add: findSolution_resultOf search_unsolved)
    moreover have "findSolutionH h a md
        = bfsH (maxDepthOf md) [?hn] {keyOf (root (readBlocks h a))} 0 h1"
      using False by (simp add: findSolutionH_def m start keyOf_def root_simps)
    ultimately show ?thesis
      using c(1) by (auto intro: preserved_trans)
  qed
qed

text \<open>
  C9. \<open>findSolution\<close> leaves the caller's data as it found it: after the call the array
  \<open>initialBlocks\<close> holds the same references, every block it refers to has the same
  \<open>id\<close>, \<open>type\<close>, \<open>x\<close>, \<open>y\<close>, \<open>width\<close>, \<open>height\<close> and \<open>label\<close>, and so has every other
  object and array that existed before the call; the solver writes only to objects it has
  allocated itself (the copies made on entry and the clones made on every transition).
  The value returned is the one of the model without store.
\<close>

theorem findSolution_leaves_caller_blocks_unchanged:
  assumes "liveArr h initialBlocks"
  shows "arrs (snd (findSolutionH h initialBlocks maxDepthArg)) ! initialBlocks
           = arrs h ! initialBlocks
       \<and> list_all (\<lambda>r. objs (snd (findSolutionH h initialBlocks maxDepthArg)) ! r = objs h ! r)
           (arrs h ! initialBlocks)
       \<and> preserved h (snd (findSolutionH h initialBlocks maxDepthArg))
       \<and> fst (findSolutionH h initialBlocks maxDepthArg)
           = findSolution (readBlocks h initialBlocks) maxDepthArg"
proof -
  let ?h' = "snd (findSolutionH h initialBlocks maxDepthArg)"
  note s = findSolutionH_simulates [OF assms, of maxDepthArg]
  then have p: "preserved h ?h'" by simp
  have "arrs ?h' ! initialBlocks = arrs h ! initialBlocks"
    by (rule liveArr_preserved(2) [OF assms p])
  moreover have "list_all (\<lambda>r. objs ?h' ! r = objs h ! r) (arrs h ! initialBlocks)"
    using assms preserved_nth(1) [OF p] by (simp add: liveArr_def list_all_iff)
  ultimately show ?thesis using s by simp
qed

theorem findSolution_leaves_caller_blocks_unchanged_witness:
  "liveArr
     \<lparr>objs = [\<lparr>o_id = Some ''king'', o_type = KING, o_x = 1, o_y = 2, o_width = 2,
               o_height = 2, o_label = Some ''KING''\<rparr>], arrs = [[0]]\<rparr> 0
   \<and> preserved
     \<lparr>objs = [\<lparr>o_id = Some ''king'', o_type = KING, o_x = 1, o_y = 2, o_width = 2,
               o_height = 2, o_label = Some ''KING''\<rparr>], arrs = [[0]]\<rparr>
     (snd (findSolutionH
       \<lparr>objs = [\<lparr>o_id = Some ''king'', o_type = KING, o_x = 1, o_y = 2, o_width = 2,
                 o_height = 2, o_label = Some ''KING''\<rparr>], arrs = [[0]]\<rparr> 0 None))"
proof -
  have l: "liveArr
     \<lparr>objs = [\<lparr>o_id = Some ''king'', o_type = KING, o_x = 1, o_y = 2, o_width = 2,
               o_height = 2, o_label = Some ''KING''\<rparr>], arrs = [[0]]\<rparr> 0"
    by (simp add: liveArr_def)
  from l findSolution_leaves_caller_blocks_unchanged [OF l, of None] show ?thesis
    by simp
qed

section \<open>Boards with the same key\<close>

lemma digit_inj:
  assumes "digit a = digit b" and "a \<le> 4" and "b \<le> 4"
  shows "a = b"
proof -
  from assms(1) have "of_char (char_of (48 + a)) = (of_char (char_of (48 + b)) :: nat)"
    by (simp add: digit_def)
  then have "(48 + a) mod 256 = (48 + b) mod 256"
    by (simp add: of_char_of)
  with assms(2,3) show ?thesis by simp
qed

lemma paintAll_le_4:
  assumes "k < 20"
  shows "paintAll bs ! k \<le> 4"
  using typeCode_pos(2) by (simp add: nth_paintAll [OF assms] split: option.splits)

lemma encodeState_eq_iff: "encodeState A = encodeState B \<longleftrightarrow> paintAll A = paintAll B"
proof
  assume e: "encodeState A = encodeState B"
  show "paintAll A = paintAll B"
  proof (rule nth_equalityI)
    show "length (paintAll A) = length (paintAll B)" by simp
  next
    fix k assume "k < length (paintAll A)"
    then have k: "k < 20" by simp
    from e have "map digit (paintAll A) ! k = map digit (paintAll B) ! k"
      by (simp add: encodeState_def)
    then have "digit (paintAll A ! k) = digit (paintAll B ! k)"
      using k by simp
    then show "paintAll A ! k = paintAll B ! k"
      by (rule digit_inj) (simp_all add: paintAll_le_4 k)
  qed
qed (simp add: encodeState_def)

lemma same_key_same_occupancy:
  assumes "validBoard A" and "validBoard B" and "encodeState A = encodeState B"
  shows "sameOccupancy A B"
  unfolding sameOccupancy_def
proof (intro ballI)
  fix cx cy assume "cx \<in> set [0 .. GRID_WIDTH - 1]" "cy \<in> set [0 .. GRID_HEIGHT - 1]"
  then have c: "0 \<le> cx" "cx < GRID_WIDTH" "0 \<le> cy" "cy < GRID_HEIGHT"
    by simp_all
  from assms(3) have "paintAll A ! nat (cy * GRID_WIDTH + cx) = paintAll B ! nat (cy * GRID_WIDTH + cx)"
    by (simp add: encodeState_eq_iff)
  with cell_code [OF assms(1) c] cell_code [OF assms(2) c]
  show "kindsAt A cx cy = kindsAt B cx cy"
    using typeCode_pos(1) typeCode_inj
    by (metis less_numeral_extra(3))
qed

lemma same_key_iff_same_occupancy:
  "validBoard A \<Longrightarrow> validBoard B \<Longrightarrow> encodeState A = encodeState B \<longleftrightarrow> sameOccupancy A B"
  using same_key_same_occupancy sameOccupancy_encodeState by blast

















section \<open>The first path to the goal is a shortest one\<close>




























section \<open>A run that uses up the iteration budget\<close>

text \<open>
  Every placement of the seven Pawns is reached from the start in at most 190 moves, by
  moving one Pawn to the next cell of the path at a time; so a search that stops with its
  frontier empty has queued a node for each of them.
\<close>

lemma sevenPawns_cells:
  "map (\<lambda>b. (b_type b, b_x b, b_y b, b_width b, b_height b)) sevenPawns
   = [(PAWN, 0, 0, 1, 1), (PAWN, 1, 0, 1, 1), (PAWN, 2, 0, 1, 1), (PAWN, 3, 0, 1, 1),
      (PAWN, 3, 1, 1, 1), (PAWN, 2, 1, 1, 1), (PAWN, 1, 1, 1, 1)]"
  by code_simp





lemma pawnAt_fields [simp]:
  "s_type (pawnAt k) = PAWN" "s_width (pawnAt k) = 1" "s_height (pawnAt k) = 1"
  by (simp_all add: pawnAt_def pawnBlock_def toSolverBlock_def)
















section \<open>The bounds of a run\<close>






end
